theory Spec2Isabelle
  imports Main
begin

section \<open>Leom: the reactive core of MicroView (src/src/signal.js)\<close>

text \<open>
  The engine keeps three module-level variables (\<open>currentEffect\<close>, \<open>effectQueue\<close>,
  \<open>isBatching\<close>) and allocates closures with captured variables: a signal captures
  \<open>value\<close> and \<open>subscribers\<close>, a computation (effect, memo or root context) is an object
  with the properties \<open>dependencies\<close>, \<open>cleanups\<close>, \<open>disposed\<close> and \<open>running\<close>.
  The model is an explicit store: objects are addressed by numbers, JavaScript \<open>Set\<close>s are
  duplicate-free lists in insertion order, and the code the engine calls back (effect
  bodies, memo functions, root setup functions, cleanup callbacks) is given as scripts
  whose steps are the calls such code can make into the engine.
\<close>

subsection \<open>Values and the strict comparison\<close>

text \<open>
  JavaScript values as far as the engine looks at them: it compares them with \<open>!==\<close> and,
  in two catch blocks, reads the property \<open>stack\<close> of a caught one. The engine never
  computes with a number: \<open>VNum\<close> holds the integral ones, \<open>VNaN\<close> is the one value not
  strictly equal to itself, objects compare by reference. An error object the
  JavaScript runtime itself throws (a TypeError) is represented by its message.
\<close>

datatype val = VUndef | VNull | VBool bool | VNum int | VNaN | VStr string | VRef nat

definition strict_eq :: "val \<Rightarrow> val \<Rightarrow> bool" where
  "strict_eq a b = (a = b \<and> a \<noteq> VNaN)"

text \<open>Reading a property of \<open>undefined\<close> or \<open>null\<close> throws a TypeError; of every other
  value it yields a value (\<open>undefined\<close> when there is no such property).\<close>

definition nullish :: "val \<Rightarrow> bool" where
  "nullish v \<longleftrightarrow> v = VUndef \<or> v = VNull"

definition stack_error :: val where
  "stack_error = VStr ''TypeError: cannot read properties of undefined or null (reading stack)''"

type_synonym sid = nat
type_synonym cid = nat

text \<open>A subscriber \<open>Set\<close> object: the \<open>subscribers\<close> of a signal or the
  \<open>memoSubscribers\<close> of a memo. A computation's \<open>dependencies\<close> holds such references.\<close>

datatype subs_ref = SignalSubs sid | MemoSubs cid

text \<open>What the engine writes with \<open>console.error\<close> and \<open>console.warn\<close>.\<close>

datatype diag =
    CycleDetected cid
  | ExecutionFailed val
  | CleanupOutside
  | RootFailed val
  | RootCleanupFailed val

text \<open>The result of a call: it returns a value or throws one.\<close>

datatype outcome = Returned val | Thrown val

text \<open>Verification-only record of the calls of computation functions and of the
  dependency edges recorded; no operation reads it.\<close>

datatype event = Invoked cid | Edge cid subs_ref

subsection \<open>Caller code\<close>

text \<open>
  A cleanup callback: a script that can produce caller-visible output, read and write
  signals, and throw.
\<close>

datatype cleanup =
    CDone
  | CEmit val cleanup
  | CRead sid "val \<Rightarrow> cleanup"
  | CWrite sid val cleanup
  | CThrow val

text \<open>
  The code of an effect body, a memo function, a root setup function or a top-level
  script. Each step is one call into the engine, continued with the call's result:
  \<open>SigGet s\<close> is \<open>s()\<close>, \<open>SigSet s v\<close> is \<open>s(v)\<close>, \<open>MemoGet m\<close> calls a memo's getter,
  \<open>Dispose c\<close> calls the disposer that \<open>createEffect\<close> or \<open>createRoot\<close> returned for
  \<open>c\<close>, \<open>Emit\<close> is an output of the caller's own (a push to an array, a DOM write).
\<close>

datatype prog =
    Return val
  | Throw val
  | Emit val prog
  | CreateSignal val "sid \<Rightarrow> prog"
  | SigGet sid "val \<Rightarrow> prog"
  | SigSet sid val "val \<Rightarrow> prog"
  | OnCleanup cleanup prog
  | CreateEffect prog "cid \<Rightarrow> prog"
  | CreateMemo prog "cid \<Rightarrow> prog"
  | MemoGet cid "val \<Rightarrow> prog"
  | CreateRoot "cid \<Rightarrow> prog" "cid \<Rightarrow> prog"
  | Dispose cid prog

subsection \<open>The store\<close>

record signal_cell =
  sig_value :: val
  subscribers :: "cid list"

datatype kind = EffectFn | MemoFn | RootCtx

text \<open>A computation object. \<open>memo_value\<close>, \<open>initialized\<close> and \<open>memoSubscribers\<close> are
  the variables \<open>createMemo\<close> captures beside it; \<open>comp_fn\<close> is the caller's \<open>fn\<close>.\<close>

record computation =
  kind :: kind
  comp_fn :: prog
  dependencies :: "subs_ref list"
  cleanups :: "cleanup list"
  disposed :: bool
  running :: bool
  memo_value :: val
  initialized :: bool
  memoSubscribers :: "cid list"

text \<open>\<open>microtasks\<close> counts the flush callbacks handed to \<open>queueMicrotask\<close> that have not
  run yet; \<open>console\<close> is the engine's diagnostics, \<open>out\<close> the callers' own output.\<close>

record state =
  currentEffect :: "cid option"
  effectQueue :: "cid list"
  isBatching :: bool
  microtasks :: nat
  signals :: "sid \<Rightarrow> signal_cell"
  comps :: "cid \<Rightarrow> computation"
  next_signal :: nat
  next_comp :: nat
  console :: "diag list"
  out :: "val list"
  history :: "event list"

definition blank_comp :: computation where
  "blank_comp = \<lparr>kind = RootCtx, comp_fn = Return VUndef, dependencies = [], cleanups = [],
     disposed = False, running = False, memo_value = VUndef, initialized = False,
     memoSubscribers = []\<rparr>"

definition init_state :: state where
  "init_state = \<lparr>currentEffect = None, effectQueue = [], isBatching = False, microtasks = 0,
     signals = (\<lambda>_. \<lparr>sig_value = VUndef, subscribers = []\<rparr>), comps = (\<lambda>_. blank_comp),
     next_signal = 0, next_comp = 0, console = [], out = [], history = []\<rparr>"

subsection \<open>Sets in insertion order\<close>

definition set_add :: "'a \<Rightarrow> 'a list \<Rightarrow> 'a list" where
  "set_add x xs = (if x \<in> set xs then xs else xs @ [x])"

definition set_delete :: "'a \<Rightarrow> 'a list \<Rightarrow> 'a list" where
  "set_delete x xs = removeAll x xs"

definition subs_of :: "subs_ref \<Rightarrow> state \<Rightarrow> cid list" where
  "subs_of r st = (case r of SignalSubs s \<Rightarrow> subscribers (signals st s)
                           | MemoSubs m \<Rightarrow> memoSubscribers (comps st m))"

definition map_subs :: "subs_ref \<Rightarrow> (cid list \<Rightarrow> cid list) \<Rightarrow> state \<Rightarrow> state" where
  "map_subs r f st =
     (case r of
        SignalSubs s \<Rightarrow>
          st\<lparr>signals := (signals st)(s := (signals st s)\<lparr>subscribers := f (subscribers (signals st s))\<rparr>)\<rparr>
      | MemoSubs m \<Rightarrow>
          st\<lparr>comps := (comps st)(m := (comps st m)\<lparr>memoSubscribers := f (memoSubscribers (comps st m))\<rparr>)\<rparr>)"

definition map_comp :: "cid \<Rightarrow> (computation \<Rightarrow> computation) \<Rightarrow> state \<Rightarrow> state" where
  "map_comp c f st = st\<lparr>comps := (comps st)(c := f (comps st c))\<rparr>"

subsection \<open>scheduleUpdate (lines 36-75) and the flush callback's queueing\<close>

text \<open>The enqueue half of \<open>scheduleUpdate\<close>: add the computation to \<open>effectQueue\<close> if absent,
  and hand one flush callback to \<open>queueMicrotask\<close> unless \<open>isBatching\<close> is set.\<close>

definition scheduleUpdate :: "cid \<Rightarrow> state \<Rightarrow> state" where
  "scheduleUpdate effect st =
     (let st1 = (if effect \<notin> set (effectQueue st)
                 then st\<lparr>effectQueue := effectQueue st @ [effect]\<rparr> else st)
      in if \<not> isBatching st1
         then st1\<lparr>isBatching := True, microtasks := Suc (microtasks st1)\<rparr>
         else st1)"

subsection \<open>onCleanup (lines 82-88)\<close>

definition onCleanup :: "cleanup \<Rightarrow> state \<Rightarrow> state" where
  "onCleanup f st =
     (case currentEffect st of
        Some c \<Rightarrow> map_comp c (\<lambda>k. k\<lparr>cleanups := cleanups k @ [f]\<rparr>) st
      | None \<Rightarrow> st\<lparr>console := console st @ [CleanupOutside]\<rparr>)"

subsection \<open>createSignal (lines 103-123)\<close>

text \<open>The tracking block shared by the signal function and the memo getter:
  \<open>subscribers.add(currentEffect); currentEffect.dependencies.add(subscribers)\<close>.\<close>

definition track :: "subs_ref \<Rightarrow> state \<Rightarrow> state" where
  "track r st =
     (case currentEffect st of
        None \<Rightarrow> st
      | Some c \<Rightarrow>
          (map_comp c (\<lambda>k. k\<lparr>dependencies := set_add r (dependencies k)\<rparr>)
             (map_subs r (set_add c) st))\<lparr>history := history st @ [Edge c r]\<rparr>)"

text \<open>The function \<open>signal\<close> that \<open>createSignal\<close> returns; \<open>arg = None\<close> is a call with no
  argument (\<open>arguments.length = 0\<close>).\<close>

definition signal_call :: "sid \<Rightarrow> val option \<Rightarrow> state \<Rightarrow> val \<times> state" where
  "signal_call s arg st =
     (let st1 = (case arg of
                   None \<Rightarrow> st
                 | Some newValue \<Rightarrow>
                     if \<not> strict_eq newValue (sig_value (signals st s))
                     then fold scheduleUpdate (subscribers (signals st s))
                            (st\<lparr>signals := (signals st)(s := (signals st s)\<lparr>sig_value := newValue\<rparr>)\<rparr>)
                     else st);
          st2 = track (SignalSubs s) st1
      in (sig_value (signals st2 s), st2))"

definition new_signal :: "val \<Rightarrow> state \<Rightarrow> state" where
  "new_signal initialValue st =
     st\<lparr>signals := (signals st)(next_signal st := \<lparr>sig_value = initialValue, subscribers = []\<rparr>),
        next_signal := Suc (next_signal st)\<rparr>"

subsection \<open>Cleanup callbacks\<close>

primrec run_cleanup :: "cleanup \<Rightarrow> state \<Rightarrow> outcome \<times> state" where
  "run_cleanup CDone st = (Returned VUndef, st)"
| "run_cleanup (CEmit v k) st = run_cleanup k (st\<lparr>out := out st @ [v]\<rparr>)"
| "run_cleanup (CRead s k) st =
     (case signal_call s None st of (v, st') \<Rightarrow> run_cleanup (k v) st')"
| "run_cleanup (CWrite s v k) st = run_cleanup k (snd (signal_call s (Some v) st))"
| "run_cleanup (CThrow x) st = (Thrown x, st)"

text \<open>\<open>cleanups.forEach((c) => c())\<close>: an exception leaves the loop.\<close>

fun call_each :: "cleanup list \<Rightarrow> state \<Rightarrow> outcome \<times> state" where
  "call_each [] st = (Returned VUndef, st)"
| "call_each (c # cs) st =
     (case run_cleanup c st of
        (Thrown x, st') \<Rightarrow> (Thrown x, st')
      | (Returned _, st') \<Rightarrow> call_each cs st')"

text \<open>The loop of the root's \<open>dispose\<close> (lines 258-264): each call in its own try/catch.\<close>

fun call_each_guarded :: "cleanup list \<Rightarrow> state \<Rightarrow> state" where
  "call_each_guarded [] st = st"
| "call_each_guarded (c # cs) st =
     (case run_cleanup c st of
        (Thrown x, st') \<Rightarrow> call_each_guarded cs (st'\<lparr>console := console st' @ [RootCleanupFailed x]\<rparr>)
      | (Returned _, st') \<Rightarrow> call_each_guarded cs st')"

subsection \<open>createEffect (lines 137-170)\<close>

text \<open>\<open>dependencies.forEach((depSet) => depSet.delete(effect)); dependencies.clear()\<close>\<close>

definition unsubscribe :: "cid \<Rightarrow> state \<Rightarrow> state" where
  "unsubscribe e st =
     map_comp e (\<lambda>k. k\<lparr>dependencies := []\<rparr>)
       (fold (\<lambda>depSet. map_subs depSet (set_delete e)) (dependencies (comps st e)) st)"

definition new_comp :: "kind \<Rightarrow> prog \<Rightarrow> state \<Rightarrow> state" where
  "new_comp k f st =
     st\<lparr>comps := (comps st)(next_comp st :=
           \<lparr>kind = k, comp_fn = f, dependencies = [], cleanups = [], disposed = False,
            running = False, memo_value = VUndef, initialized = False, memoSubscribers = []\<rparr>),
        next_comp := Suc (next_comp st)\<rparr>"

text \<open>A computation function is entered (verification-only).\<close>

definition entered :: "cid \<Rightarrow> state \<Rightarrow> state" where
  "entered c st = st\<lparr>history := history st @ [Invoked c]\<rparr>"

text \<open>The closure \<open>effect\<close> (lines 138-152); \<open>f\<close> is what calling the caller's \<open>fn\<close> does.
  The try/finally restores \<open>currentEffect\<close> and lets the exception through.\<close>

definition effect_fn :: "(state \<Rightarrow> outcome \<times> state) \<Rightarrow> cid \<Rightarrow> state \<Rightarrow> outcome \<times> state" where
  "effect_fn f e st =
     (case call_each (cleanups (comps st e)) st of
        (Thrown x, st1) \<Rightarrow> (Thrown x, st1)
      | (Returned _, st1) \<Rightarrow>
          (let st2 = map_comp e (\<lambda>k. k\<lparr>cleanups := []\<rparr>) st1;
               st3 = unsubscribe e st2;
               prevEffect = currentEffect st3
           in case f (st3\<lparr>currentEffect := Some e\<rparr>) of
                (r, st4) \<Rightarrow> (r, st4\<lparr>currentEffect := prevEffect\<rparr>)))"

text \<open>The disposer \<open>createEffect\<close> returns (lines 162-169).\<close>

definition effect_dispose :: "cid \<Rightarrow> state \<Rightarrow> outcome \<times> state" where
  "effect_dispose e st =
     (if disposed (comps st e) then (Returned VUndef, st)
      else
        (let st1 = map_comp e (\<lambda>k. k\<lparr>disposed := True\<rparr>) st in
         case call_each (cleanups (comps st1 e)) st1 of
           (Thrown x, st2) \<Rightarrow> (Thrown x, st2)
         | (Returned _, st2) \<Rightarrow>
             (let st3 = unsubscribe e st2
              in (Returned VUndef, st3\<lparr>effectQueue := set_delete e (effectQueue st3)\<rparr>))))"

subsection \<open>createMemo (lines 183-226)\<close>

text \<open>The block of \<open>memoEffect\<close> that follows \<open>const newValue = fn()\<close> (lines 200-204).\<close>

definition memo_update :: "cid \<Rightarrow> val \<Rightarrow> state \<Rightarrow> state" where
  "memo_update m newValue st =
     (if \<not> initialized (comps st m) \<or> \<not> strict_eq newValue (memo_value (comps st m))
      then fold scheduleUpdate (memoSubscribers (comps st m))
             (map_comp m (\<lambda>k. k\<lparr>memo_value := newValue, initialized := True\<rparr>) st)
      else st)"

text \<open>The closure \<open>memoEffect\<close> (lines 188-208).\<close>

definition memo_fn :: "(state \<Rightarrow> outcome \<times> state) \<Rightarrow> cid \<Rightarrow> state \<Rightarrow> outcome \<times> state" where
  "memo_fn f m st =
     (case call_each (cleanups (comps st m)) st of
        (Thrown x, st1) \<Rightarrow> (Thrown x, st1)
      | (Returned _, st1) \<Rightarrow>
          (let st2 = map_comp m (\<lambda>k. k\<lparr>cleanups := []\<rparr>) st1;
               st3 = unsubscribe m st2;
               prevEffect = currentEffect st3
           in case f (st3\<lparr>currentEffect := Some m\<rparr>) of
                (Thrown x, st4) \<Rightarrow> (Thrown x, st4\<lparr>currentEffect := prevEffect\<rparr>)
              | (Returned newValue, st4) \<Rightarrow>
                  (Returned VUndef, (memo_update m newValue st4)\<lparr>currentEffect := prevEffect\<rparr>)))"

text \<open>\<open>memoGetter\<close> (lines 217-223).\<close>

definition memoGetter :: "cid \<Rightarrow> state \<Rightarrow> val \<times> state" where
  "memoGetter m st = (let st1 = track (MemoSubs m) st in (memo_value (comps st1 m), st1))"

subsection \<open>createRoot (lines 235-269)\<close>

text \<open>The function \<open>dispose\<close> of a root (lines 255-266).\<close>

definition root_dispose :: "cid \<Rightarrow> state \<Rightarrow> state" where
  "root_dispose r st =
     (if disposed (comps st r) then st
      else
        (let st1 = map_comp r (\<lambda>k. k\<lparr>disposed := True\<rparr>) st;
             st2 = call_each_guarded (cleanups (comps st1 r)) st1
         in map_comp r (\<lambda>k. k\<lparr>cleanups := []\<rparr>) st2))"

text \<open>Calling the disposer that was returned for computation \<open>c\<close>. \<open>createMemo\<close> returns
  only the getter, so a memo has none.\<close>

definition dispose :: "cid \<Rightarrow> state \<Rightarrow> outcome \<times> state" where
  "dispose c st =
     (case kind (comps st c) of
        EffectFn \<Rightarrow> effect_dispose c st
      | RootCtx \<Rightarrow> (Returned VUndef, root_dispose c st)
      | MemoFn \<Rightarrow> (Returned VUndef, st))"

subsection \<open>Running caller code\<close>

text \<open>
  \<open>createEffect\<close> and \<open>createMemo\<close> build the computation object and call it once
  (lines 154-159, 210-215); an exception of that first call leaves \<open>createEffect\<close>.
  \<open>createRoot\<close> installs the context, calls \<open>fn(dispose)\<close> inside try/catch/finally and
  returns \<open>dispose\<close>. Its catch block logs \<open>e.stack || e\<close>: for a caught \<open>undefined\<close> or
  \<open>null\<close> the property read throws inside the catch block, so after the \<open>finally\<close> that
  TypeError leaves \<open>createRoot\<close> and nothing is logged.
\<close>

primrec exec :: "prog \<Rightarrow> state \<Rightarrow> outcome \<times> state" where
  "exec (Return v) st = (Returned v, st)"
| "exec (Throw x) st = (Thrown x, st)"
| "exec (Emit v k) st = exec k (st\<lparr>out := out st @ [v]\<rparr>)"
| "exec (CreateSignal v k) st = exec (k (next_signal st)) (new_signal v st)"
| "exec (SigGet s k) st = (case signal_call s None st of (v, st') \<Rightarrow> exec (k v) st')"
| "exec (SigSet s v k) st = (case signal_call s (Some v) st of (v', st') \<Rightarrow> exec (k v') st')"
| "exec (OnCleanup f k) st = exec k (onCleanup f st)"
| "exec (CreateEffect fn k) st =
     (case effect_fn (exec fn) (next_comp st) (entered (next_comp st) (new_comp EffectFn fn st)) of
        (Thrown x, st') \<Rightarrow> (Thrown x, st')
      | (Returned _, st') \<Rightarrow> exec (k (next_comp st)) st')"
| "exec (CreateMemo fn k) st =
     (case memo_fn (exec fn) (next_comp st) (entered (next_comp st) (new_comp MemoFn fn st)) of
        (Thrown x, st') \<Rightarrow> (Thrown x, st')
      | (Returned _, st') \<Rightarrow> exec (k (next_comp st)) st')"
| "exec (MemoGet m k) st = (case memoGetter m st of (v, st') \<Rightarrow> exec (k v) st')"
| "exec (CreateRoot fn k) st =
     (let rootContext = next_comp st;
          st1 = new_comp RootCtx (Return VUndef) st;
          prevEffect = currentEffect st1
      in case exec (fn rootContext) (st1\<lparr>currentEffect := Some rootContext\<rparr>) of
           (Thrown x, st2) \<Rightarrow>
             if nullish x then (Thrown stack_error, st2\<lparr>currentEffect := prevEffect\<rparr>)
             else exec (k rootContext)
                    (st2\<lparr>console := console st2 @ [RootFailed x], currentEffect := prevEffect\<rparr>)
         | (Returned _, st2) \<Rightarrow>
             exec (k rootContext) (st2\<lparr>currentEffect := prevEffect\<rparr>))"
| "exec (Dispose c k) st =
     (case dispose c st of
        (Thrown x, st') \<Rightarrow> (Thrown x, st')
      | (Returned _, st') \<Rightarrow> exec k st')"

subsection \<open>The flush callback (lines 43-73)\<close>

text \<open>The call \<open>eff()\<close>: a root context is a plain object, so calling it throws a
  TypeError.\<close>

definition call_comp :: "cid \<Rightarrow> state \<Rightarrow> outcome \<times> state" where
  "call_comp eff st =
     (case kind (comps st eff) of
        EffectFn \<Rightarrow> effect_fn (exec (comp_fn (comps st eff))) eff (entered eff st)
      | MemoFn \<Rightarrow> memo_fn (exec (comp_fn (comps st eff))) eff (entered eff st)
      | RootCtx \<Rightarrow> (Thrown (VStr ''TypeError: eff is not a function''), st))"

text \<open>
  One round of the loop over \<open>Array.from(effectQueue)\<close> (lines 47-71). The catch block
  logs \<open>e.stack || e\<close>: for a caught \<open>undefined\<close> or \<open>null\<close> the property read throws a
  TypeError inside the catch block; the \<open>finally\<close> still clears \<open>running\<close>, and the
  TypeError leaves the loop with nothing logged.
\<close>

definition flush_one :: "cid \<Rightarrow> state \<Rightarrow> outcome \<times> state" where
  "flush_one eff st0 =
     (let st = st0\<lparr>effectQueue := set_delete eff (effectQueue st0)\<rparr> in
      if disposed (comps st eff) then (Returned VUndef, st)
      else if running (comps st eff)
      then (Returned VUndef, st\<lparr>console := console st @ [CycleDetected eff]\<rparr>)
      else
        (case call_comp eff (map_comp eff (\<lambda>k. k\<lparr>running := True\<rparr>) st) of
           (Thrown x, st1) \<Rightarrow>
             if nullish x
             then (Thrown stack_error, map_comp eff (\<lambda>k. k\<lparr>running := False\<rparr>) st1)
             else (Returned VUndef,
                   map_comp eff (\<lambda>k. k\<lparr>running := False\<rparr>)
                     (st1\<lparr>console := console st1 @ [ExecutionFailed x]\<rparr>))
         | (Returned _, st1) \<Rightarrow> (Returned VUndef, map_comp eff (\<lambda>k. k\<lparr>running := False\<rparr>) st1)))"

text \<open>The loop over the snapshot: an exception leaves it, and what is left of the
  snapshot stays in \<open>effectQueue\<close>.\<close>

fun flush_loop :: "cid list \<Rightarrow> state \<Rightarrow> outcome \<times> state" where
  "flush_loop [] st = (Returned VUndef, st)"
| "flush_loop (eff # q) st =
     (case flush_one eff st of
        (Thrown x, st') \<Rightarrow> (Thrown x, st')
      | (Returned _, st') \<Rightarrow> flush_loop q st')"

text \<open>The callback handed to \<open>queueMicrotask\<close> (lines 43-73), and the state it leaves,
  whether it returned or threw.\<close>

definition flush_callback :: "state \<Rightarrow> outcome \<times> state" where
  "flush_callback st = (let st1 = st\<lparr>isBatching := False\<rparr> in flush_loop (effectQueue st1) st1)"

definition flush :: "state \<Rightarrow> state" where
  "flush st = snd (flush_callback st)"

text \<open>The host runs one queued microtask, if there is one; an exception of the callback
  is the host's to report and changes nothing in the engine.\<close>

definition microtask_turn :: "state \<Rightarrow> outcome \<times> state" where
  "microtask_turn st =
     (if microtasks st = 0 then (Returned VUndef, st)
      else flush_callback (st\<lparr>microtasks := microtasks st - 1\<rparr>))"

definition run_microtask :: "state \<Rightarrow> state" where
  "run_microtask st = snd (microtask_turn st)"

text \<open>A top-level script: it runs with whatever \<open>currentEffect\<close> holds (\<open>None\<close> between
  turns); an exception it does not catch ends it.\<close>

definition run_script :: "prog \<Rightarrow> state \<Rightarrow> state" where
  "run_script p st = snd (exec p st)"

subsection \<open>Example scripts\<close>

text \<open>A root whose setup function creates an effect that registers \<open>f\<close>, and then
  registers \<open>g\<close> itself.\<close>

definition nested_cleanups :: "cleanup \<Rightarrow> cleanup \<Rightarrow> prog" where
  "nested_cleanups f g =
     CreateRoot (\<lambda>r. CreateEffect (OnCleanup f (Return VUndef)) (\<lambda>e. OnCleanup g (Return VUndef)))
                (\<lambda>r. Return VUndef)"

text \<open>\<open>createEffect(() => { s(v) })\<close>: an effect that only writes.\<close>

definition write_only :: "sid \<Rightarrow> val \<Rightarrow> prog" where
  "write_only s v = CreateEffect (SigSet s v (\<lambda>_. Return VUndef)) (\<lambda>_. Return VUndef)"

text \<open>A state with one signal (number 0, holding 5) that computation 0 subscribes to.\<close>

definition one_subscriber :: state where
  "one_subscriber =
     init_state\<lparr>signals := (signals init_state)(0 := \<lparr>sig_value = VNum 5, subscribers = [0]\<rparr>),
                comps := (comps init_state)(0 := blank_comp\<lparr>kind := EffectFn, dependencies := [SignalSubs 0]\<rparr>),
                next_signal := 1, next_comp := 1\<rparr>"

subsection \<open>Predicates used in the properties\<close>

text \<open>The scheduler's flag agrees with the number of flush callbacks not yet run, and
  the queue, a \<open>Set\<close>, holds no computation twice.\<close>

definition sched_ok :: "state \<Rightarrow> bool" where
  "sched_ok st \<longleftrightarrow> microtasks st = (if isBatching st then 1 else 0) \<and> distinct (effectQueue st)"

text \<open>
  What running caller code (a script, a body, a cleanup) from \<open>st\<close> to \<open>st'\<close> does to
  the computations of \<open>S\<close> that exist already: it never enters their functions, keeps
  their kind, function and memo cache, never revives a disposed one, sets no \<open>running\<close>
  flag, and a computation of \<open>S\<close> that is not disposed afterwards has gained exactly the
  dependencies whose edges were recorded for it.
\<close>

definition evolves :: "cid set \<Rightarrow> state \<Rightarrow> state \<Rightarrow> bool" where
  "evolves S st st' \<longleftrightarrow>
     next_comp st \<le> next_comp st'
   \<and> (sched_ok st \<longrightarrow> sched_ok st')
   \<and> (\<forall>c. running (comps st' c) \<longrightarrow> running (comps st c))
   \<and> (\<forall>c\<in>S. kind (comps st' c) = kind (comps st c)
            \<and> comp_fn (comps st' c) = comp_fn (comps st c)
            \<and> memo_value (comps st' c) = memo_value (comps st c)
            \<and> initialized (comps st' c) = initialized (comps st c)
            \<and> (disposed (comps st c) \<longrightarrow> disposed (comps st' c)))
   \<and> (\<exists>h. history st' = history st @ h
          \<and> (\<forall>c\<in>S. Invoked c \<notin> set h)
          \<and> (\<forall>c\<in>S. \<not> disposed (comps st' c) \<longrightarrow>
                set (dependencies (comps st' c))
                  = set (dependencies (comps st c)) \<union> {r. Edge c r \<in> set h}))"

subsection \<open>Further example scripts and auxiliary definitions\<close>

text \<open>A root whose setup creates an effect that reads a signal and then creates a memo
  whose function throws.\<close>

definition failing_nest :: prog where
  "failing_nest =
     CreateRoot (\<lambda>r. CreateEffect (SigGet 0 (\<lambda>_. CreateMemo (Throw (VStr ''boom'')) (\<lambda>m. Return VUndef)))
                                   (\<lambda>e. Return VUndef))
                (\<lambda>r. Return VUndef)"

text \<open>An effect that creates a memo with function \<open>q\<close> and reads \<open>s\<close> afterwards.\<close>

definition read_after_memo :: "prog \<Rightarrow> sid \<Rightarrow> prog" where
  "read_after_memo q s =
     CreateEffect (CreateMemo q (\<lambda>m. SigGet s (\<lambda>_. Return VUndef))) (\<lambda>e. Return VUndef)"

text \<open>The state in which the closure \<open>effect\<close> (or \<open>memoEffect\<close>) calls \<open>fn\<close>, from the state
  \<open>st1\<close> its cleanup loop left: cleanup list emptied, dependency edges removed on both
  sides, \<open>currentEffect\<close> set to the computation.\<close>

definition body_start :: "cid \<Rightarrow> state \<Rightarrow> state" where
  "body_start e st1 = (unsubscribe e (map_comp e (\<lambda>k. k\<lparr>cleanups := []\<rparr>) st1))\<lparr>currentEffect := Some e\<rparr>"

text \<open>How often the function of computation \<open>c\<close> has been entered.\<close>

definition inv_count :: "cid \<Rightarrow> state \<Rightarrow> nat" where
  "inv_count c st = count_list (history st) (Invoked c)"

text \<open>No computation is marked as running (the state between two scheduler rounds).\<close>

definition all_idle :: "state \<Rightarrow> bool" where
  "all_idle st \<longleftrightarrow> (\<forall>c. \<not> running (comps st c))"

text \<open>The part of \<open>evolves\<close> that also holds for the computation being run: its function is
  not entered again, it keeps its kind and function, and stays disposed once disposed.\<close>

definition quiet :: "cid set \<Rightarrow> state \<Rightarrow> state \<Rightarrow> bool" where
  "quiet S st st' \<longleftrightarrow>
     next_comp st \<le> next_comp st'
   \<and> (sched_ok st \<longrightarrow> sched_ok st')
   \<and> (\<forall>c\<in>S. kind (comps st' c) = kind (comps st c)
            \<and> comp_fn (comps st' c) = comp_fn (comps st c)
            \<and> (disposed (comps st c) \<longrightarrow> disposed (comps st' c)))
   \<and> (\<exists>h. history st' = history st @ h \<and> (\<forall>c\<in>S. Invoked c \<notin> set h))"

definition armed :: "cid \<Rightarrow> state \<Rightarrow> state" where
  "armed eff st = map_comp eff (\<lambda>k. k\<lparr>running := True\<rparr>) (st\<lparr>effectQueue := set_delete eff (effectQueue st)\<rparr>)"

text \<open>The states the engine can be in between two turns: scripts and queued flush
  callbacks run one after the other, starting from the freshly loaded module.\<close>

inductive reachable :: "state \<Rightarrow> bool" where
  reachable_init: "reachable init_state"
| reachable_script: "reachable st \<Longrightarrow> reachable (run_script p st)"
| reachable_microtask: "reachable st \<Longrightarrow> reachable (run_microtask st)"

text \<open>A script that performs the writes \<open>s(v)\<close> of a list, one after the other.\<close>

definition writes :: "(sid \<times> val) list \<Rightarrow> prog" where
  "writes ws = foldr (\<lambda>(s, v) p. SigSet s v (\<lambda>_. p)) ws (Return VUndef)"










text \<open>A cleanup callback that reports \<open>v\<close>.\<close>

definition emitter :: "val \<Rightarrow> cleanup" where
  "emitter v = CEmit v CDone"

text \<open>An effect that reads a signal and registers two cleanups, the first of which
  throws; then a write to the signal.\<close>

definition stuck_effect :: prog where
  "stuck_effect =
     CreateSignal (VNum 0) (\<lambda>s.
       CreateEffect (SigGet s (\<lambda>v. Emit v
                       (OnCleanup (CThrow (VStr ''cleanup failed''))
                         (OnCleanup (emitter (VStr ''second cleanup'')) (Return VUndef)))))
         (\<lambda>d. SigSet s (VNum 1) (\<lambda>_. Return VUndef)))"

text \<open>An effect that reads a signal and registers two cleanups, the first of which
  throws; then a write to the signal and a call of the disposer.\<close>

definition leaky_dispose :: prog where
  "leaky_dispose =
     CreateSignal (VNum 0) (\<lambda>s.
       CreateEffect (SigGet s (\<lambda>v.
                       OnCleanup (CThrow (VStr ''cleanup failed''))
                         (OnCleanup (emitter (VStr ''second cleanup'')) (Return VUndef))))
         (\<lambda>d. SigSet s (VNum 1) (\<lambda>_. Dispose d (Emit (VStr ''disposed'') (Return VUndef)))))"

text \<open>The self-cycle detections among the diagnostics logged so far.\<close>

definition is_cycle :: "diag \<Rightarrow> bool" where
  "is_cycle d = (case d of CycleDetected _ \<Rightarrow> True | _ \<Rightarrow> False)"

definition cycles :: "state \<Rightarrow> diag list" where
  "cycles st = filter is_cycle (console st)"

text \<open>
  What holds of the store in every state the engine reaches: the ambient computation,
  the queued computations and the subscribers exist; a computation in a subscriber set
  has that set among its dependencies; and a memo, which has no disposer, is never
  marked disposed.
\<close>

definition linked :: "state \<Rightarrow> bool" where
  "linked st \<longleftrightarrow>
     (\<forall>c. currentEffect st = Some c \<longrightarrow> c < next_comp st)
   \<and> (\<forall>c\<in>set (effectQueue st). c < next_comp st)
   \<and> (\<forall>r. \<forall>c\<in>set (subs_of r st). c < next_comp st \<and> r \<in> set (dependencies (comps st c)))
   \<and> (\<forall>c. kind (comps st c) = MemoFn \<longrightarrow> \<not> disposed (comps st c))"





text \<open>The scenario \<open>stuck_effect\<close> after the flush, and after one more write and flush.\<close>

definition stuck_once :: state where
  "stuck_once = run_microtask (run_script stuck_effect init_state)"

definition stuck_twice :: state where
  "stuck_twice = run_microtask (run_script (writes [(0, VNum 2)]) stuck_once)"

text \<open>A root that registers the two cleanups of \<open>leaky_dispose\<close>, and whose disposer is
  called.\<close>

definition guarded_root :: prog where
  "guarded_root =
     CreateRoot (\<lambda>r. OnCleanup (CThrow (VStr ''cleanup failed''))
                       (OnCleanup (emitter (VStr ''second cleanup'')) (Return VUndef)))
                (\<lambda>d. Dispose d (Emit (VStr ''disposed'') (Return VUndef)))"

text \<open>The scenario \<open>leaky_dispose\<close> followed by a second call of the disposer and a flush.\<close>

definition leaky_again :: state where
  "leaky_again = run_microtask (run_script (Dispose 0 (Emit (VStr ''disposed again'') (Return VUndef)))
                                  (run_script leaky_dispose init_state))"

text \<open>
  Signals \<open>a = true\<close>, \<open>b = 10\<close>, \<open>c = 10\<close>, the memo \<open>a() ? b() : c()\<close>, which reports each
  computation, and an effect that reports the memo's value; \<open>three_signals\<close> is the state
  with the three signals only.
\<close>

definition choice_body :: prog where
  "choice_body =
     SigGet 0 (\<lambda>a. if a = VBool True
                    then SigGet 1 (\<lambda>v. Emit (VStr ''compute'') (Return v))
                    else SigGet 2 (\<lambda>v. Emit (VStr ''compute'') (Return v)))"

definition three_signals :: state where
  "three_signals =
     run_script (CreateSignal (VBool True) (\<lambda>a. CreateSignal (VNum 10) (\<lambda>b. CreateSignal (VNum 10)
       (\<lambda>c. Return VUndef)))) init_state"

definition memo_demo :: prog where
  "memo_demo =
     CreateSignal (VBool True) (\<lambda>a. CreateSignal (VNum 10) (\<lambda>b. CreateSignal (VNum 10) (\<lambda>c.
       CreateMemo choice_body
         (\<lambda>m. CreateEffect (MemoGet m (\<lambda>v. Emit v (Return VUndef))) (\<lambda>d. Return VUndef)))))"

definition memo_state :: state where
  "memo_state = run_script memo_demo init_state"

text \<open>After \<open>a(false)\<close> and the flush: the memo has read \<open>c\<close> and computed the same value.\<close>

definition memo_same :: state where
  "memo_same = run_microtask (run_script (writes [(0, VBool False)]) memo_state)"

text \<open>Then after \<open>c(21)\<close> and the flush that recomputes the memo, and after the next
  flush.\<close>

definition memo_changed :: state where
  "memo_changed = run_microtask (run_script (writes [(2, VNum 21)]) memo_same)"

definition memo_settled :: state where
  "memo_settled = run_microtask memo_changed"

text \<open>The state in which the scheduler calls the memo in the first of these flushes.\<close>

definition memo_call :: state where
  "memo_call = entered 0 (armed 0 ((run_script (writes [(0, VBool False)]) memo_state)
                                      \<lparr>microtasks := 0, isBatching := False\<rparr>))"

text \<open>The operator \<open>!\<close> of JavaScript.\<close>

definition js_not :: "val \<Rightarrow> val" where
  "js_not v = VBool (case v of VUndef \<Rightarrow> True | VNull \<Rightarrow> True | VBool b \<Rightarrow> \<not> b | VNum n \<Rightarrow> n = 0
                      | VNaN \<Rightarrow> True | VStr s \<Rightarrow> s = [] | VRef _ \<Rightarrow> False)"

text \<open>\<open>const s = createSignal(false); createEffect(() => { s(!s()); });\<close>\<close>

definition self_writer_body :: "sid \<Rightarrow> prog" where
  "self_writer_body s = SigGet s (\<lambda>v. SigSet s (js_not v) (\<lambda>_. Return VUndef))"

definition self_writer :: prog where
  "self_writer = CreateSignal (VBool False) (\<lambda>s. CreateEffect (self_writer_body s) (\<lambda>d. Return VUndef))"

definition self_state :: state where
  "self_state = run_script self_writer init_state"

text \<open>The states that script goes through: between two turns the effect is idle and
  queued with a flush pending, nothing is logged, and the signal holds whether the
  effect has run an odd number of times.\<close>

definition spinning :: "nat \<Rightarrow> state \<Rightarrow> bool" where
  "spinning n st \<longleftrightarrow>
     microtasks st = 1 \<and> isBatching st \<and> effectQueue st = [0] \<and> currentEffect st = None
   \<and> console st = [] \<and> kind (comps st 0) = EffectFn \<and> comp_fn (comps st 0) = self_writer_body 0
   \<and> \<not> disposed (comps st 0) \<and> \<not> running (comps st 0) \<and> cleanups (comps st 0) = []
   \<and> dependencies (comps st 0) = [SignalSubs 0] \<and> subscribers (signals st 0) = [0]
   \<and> sig_value (signals st 0) = VBool (odd n) \<and> inv_count 0 st = n"

section \<open>Properties\<close>

subsection \<open>Sets, the queue and the tracking block\<close>

lemma set_add_nil [simp]: "set_add x [] = [x]"
  by (simp add: set_add_def)

lemma set_set_add [simp]: "set (set_add x xs) = insert x (set xs)"
  by (auto simp: set_add_def)

lemma distinct_set_add [simp]: "distinct (set_add x xs) = distinct xs"
  by (simp add: set_add_def)

lemma set_set_delete [simp]: "set (set_delete x xs) = set xs - {x}"
  by (simp add: set_delete_def)

lemma distinct_set_delete [simp]: "distinct xs \<Longrightarrow> distinct (set_delete x xs)"
  by (simp add: set_delete_def distinct_removeAll)

lemma scheduleUpdate_frame [simp]:
  "currentEffect (scheduleUpdate e st) = currentEffect st"
  "signals (scheduleUpdate e st) = signals st"
  "comps (scheduleUpdate e st) = comps st"
  "next_signal (scheduleUpdate e st) = next_signal st"
  "next_comp (scheduleUpdate e st) = next_comp st"
  "console (scheduleUpdate e st) = console st"
  "out (scheduleUpdate e st) = out st"
  "history (scheduleUpdate e st) = history st"
  by (simp_all add: scheduleUpdate_def Let_def)

lemma scheduleUpdate_queue [simp]:
  "effectQueue (scheduleUpdate e st) = set_add e (effectQueue st)"
  by (simp add: scheduleUpdate_def Let_def set_add_def)

lemma scheduleUpdate_batching [simp]:
  "isBatching (scheduleUpdate e st) = True"
  "microtasks (scheduleUpdate e st) = (if isBatching st then microtasks st else Suc (microtasks st))"
  by (simp_all add: scheduleUpdate_def Let_def)

lemma notify_frame [simp]:
  "currentEffect (fold scheduleUpdate xs st) = currentEffect st"
  "signals (fold scheduleUpdate xs st) = signals st"
  "comps (fold scheduleUpdate xs st) = comps st"
  "next_signal (fold scheduleUpdate xs st) = next_signal st"
  "next_comp (fold scheduleUpdate xs st) = next_comp st"
  "console (fold scheduleUpdate xs st) = console st"
  "out (fold scheduleUpdate xs st) = out st"
  "history (fold scheduleUpdate xs st) = history st"
  by (induction xs arbitrary: st; simp)+

lemma notify_queue [simp]:
  "effectQueue (fold scheduleUpdate xs st) = fold set_add xs (effectQueue st)"
  by (induction xs arbitrary: st) simp_all

lemma set_fold_set_add [simp]: "set (fold set_add xs q) = set xs \<union> set q"
  by (induction xs arbitrary: q) auto

lemma distinct_fold_set_add [simp]: "distinct (fold set_add xs q) = distinct q"
  by (induction xs arbitrary: q) auto

lemma notify_batching [simp]:
  "isBatching (fold scheduleUpdate xs st) = (isBatching st \<or> xs \<noteq> [])"
  "microtasks (fold scheduleUpdate xs st) =
     (if isBatching st \<or> xs = [] then microtasks st else Suc (microtasks st))"
  by (induction xs arbitrary: st; simp)+

lemma track_frame [simp]:
  "currentEffect (track r st) = currentEffect st"
  "effectQueue (track r st) = effectQueue st"
  "isBatching (track r st) = isBatching st"
  "microtasks (track r st) = microtasks st"
  "next_signal (track r st) = next_signal st"
  "next_comp (track r st) = next_comp st"
  "console (track r st) = console st"
  "out (track r st) = out st"
  by (cases r; simp add: track_def map_comp_def map_subs_def split: option.splits)+

lemma track_None [simp]: "currentEffect st = None \<Longrightarrow> track r st = st"
  by (simp add: track_def)

lemma track_sig_value [simp]: "sig_value (signals (track r st) s) = sig_value (signals st s)"
  by (cases r; simp add: track_def map_comp_def map_subs_def split: option.splits)

lemma unsubscribe_nil [simp]:
  "dependencies (comps st e) = [] \<Longrightarrow> unsubscribe e st = map_comp e (\<lambda>k. k\<lparr>dependencies := []\<rparr>) st"
  by (simp add: unsubscribe_def)

lemma run_microtask_eq:
  "run_microtask st = (if microtasks st = 0 then st else flush (st\<lparr>microtasks := microtasks st - 1\<rparr>))"
  by (simp add: run_microtask_def microtask_turn_def flush_def)

subsection \<open>What caller code can do to existing computations\<close>

lemma entered_frame [simp]:
  "currentEffect (entered c st) = currentEffect st"
  "effectQueue (entered c st) = effectQueue st"
  "isBatching (entered c st) = isBatching st"
  "microtasks (entered c st) = microtasks st"
  "signals (entered c st) = signals st"
  "comps (entered c st) = comps st"
  "next_signal (entered c st) = next_signal st"
  "next_comp (entered c st) = next_comp st"
  "console (entered c st) = console st"
  "out (entered c st) = out st"
  "history (entered c st) = history st @ [Invoked c]"
  by (simp_all add: entered_def)

lemma evolves_refl [simp]: "evolves S st st"
  by (simp add: evolves_def)

lemma evolves_mono: "T \<subseteq> S \<Longrightarrow> evolves S a b \<Longrightarrow> evolves T a b"
  unfolding evolves_def by (elim conjE exE, intro conjI) (blast+)

lemma evolves_trans:
  assumes "evolves S a b" "evolves S b c" shows "evolves S a c"
proof -
  from assms(1) obtain h1 where h1: "history b = history a @ h1"
     "\<forall>k\<in>S. Invoked k \<notin> set h1"
     "\<forall>k\<in>S. \<not> disposed (comps b k) \<longrightarrow>
                set (dependencies (comps b k)) = set (dependencies (comps a k)) \<union> {r. Edge k r \<in> set h1}"
    unfolding evolves_def by blast
  from assms(2) obtain h2 where h2: "history c = history b @ h2"
     "\<forall>k\<in>S. Invoked k \<notin> set h2"
     "\<forall>k\<in>S. \<not> disposed (comps c k) \<longrightarrow>
                set (dependencies (comps c k)) = set (dependencies (comps b k)) \<union> {r. Edge k r \<in> set h2}"
    unfolding evolves_def by blast
  have le: "next_comp a \<le> next_comp c"
    using assms unfolding evolves_def by linarith
  have ok: "sched_ok a \<longrightarrow> sched_ok c"
    using assms unfolding evolves_def by blast
  have fr1: "\<forall>k\<in>S. kind (comps b k) = kind (comps a k)
        \<and> comp_fn (comps b k) = comp_fn (comps a k)
        \<and> memo_value (comps b k) = memo_value (comps a k)
        \<and> initialized (comps b k) = initialized (comps a k)
        \<and> (disposed (comps a k) \<longrightarrow> disposed (comps b k))"
    using assms(1) unfolding evolves_def by blast
  have fr2: "\<forall>k\<in>S. kind (comps c k) = kind (comps b k)
        \<and> comp_fn (comps c k) = comp_fn (comps b k)
        \<and> memo_value (comps c k) = memo_value (comps b k)
        \<and> initialized (comps c k) = initialized (comps b k)
        \<and> (disposed (comps b k) \<longrightarrow> disposed (comps c k))"
    using assms(2) unfolding evolves_def by blast
  have run: "\<forall>k. running (comps c k) \<longrightarrow> running (comps a k)"
    using assms unfolding evolves_def by blast
  have H: "history c = history a @ (h1 @ h2)" using h1(1) h2(1) by simp
  have I: "\<forall>k\<in>S. Invoked k \<notin> set (h1 @ h2)"
    using h1(2) h2(2) by simp
  have D: "\<forall>k\<in>S. \<not> disposed (comps c k) \<longrightarrow>
                set (dependencies (comps c k)) = set (dependencies (comps a k)) \<union> {r. Edge k r \<in> set (h1 @ h2)}"
  proof (intro ballI impI)
    fix k assume k: "k \<in> S" and nd: "\<not> disposed (comps c k)"
    have ndb: "\<not> disposed (comps b k)" using fr2 k nd by blast
    show "set (dependencies (comps c k)) = set (dependencies (comps a k)) \<union> {r. Edge k r \<in> set (h1 @ h2)}"
      using h1(3) h2(3) k nd ndb by auto
  qed
  have F: "\<forall>k\<in>S. kind (comps c k) = kind (comps a k)
        \<and> comp_fn (comps c k) = comp_fn (comps a k)
        \<and> memo_value (comps c k) = memo_value (comps a k)
        \<and> initialized (comps c k) = initialized (comps a k)
        \<and> (disposed (comps a k) \<longrightarrow> disposed (comps c k))"
    using fr1 fr2 by simp
  have "\<exists>h. history c = history a @ h
          \<and> (\<forall>k\<in>S. Invoked k \<notin> set h)
          \<and> (\<forall>k\<in>S. \<not> disposed (comps c k) \<longrightarrow>
                set (dependencies (comps c k))
                  = set (dependencies (comps a k)) \<union> {r. Edge k r \<in> set h})"
    using H I D by blast
  then show ?thesis unfolding evolves_def
    using le ok run F by blast
qed

text \<open>A step that leaves the history alone and, on the computations of S, the fields
  the relation watches.\<close>

lemma evolves_frame:
  assumes "next_comp st \<le> next_comp st'"
    and "sched_ok st \<longrightarrow> sched_ok st'"
    and "\<forall>c. running (comps st' c) \<longrightarrow> running (comps st c)"
    and "history st' = history st"
    and "\<forall>c\<in>S. kind (comps st' c) = kind (comps st c)
            \<and> comp_fn (comps st' c) = comp_fn (comps st c)
            \<and> memo_value (comps st' c) = memo_value (comps st c)
            \<and> initialized (comps st' c) = initialized (comps st c)
            \<and> (disposed (comps st c) \<longrightarrow> disposed (comps st' c))
            \<and> (\<not> disposed (comps st' c) \<longrightarrow> dependencies (comps st' c) = dependencies (comps st c))"
  shows "evolves S st st'"
  unfolding evolves_def using assms
  by (intro conjI; (rule exI[of _ "[]"])?) auto

lemma evolves_next_comp: "evolves S st st' \<Longrightarrow> next_comp st \<le> next_comp st'"
  by (simp add: evolves_def)

lemma evolves_disposed: "evolves S st st' \<Longrightarrow> c \<in> S \<Longrightarrow> disposed (comps st c) \<Longrightarrow> disposed (comps st' c)"
  by (simp add: evolves_def)

lemma sched_ok_scheduleUpdate [simp]: "sched_ok st \<Longrightarrow> sched_ok (scheduleUpdate e st)"
  by (simp add: sched_ok_def)

lemma sched_ok_notify [simp]: "sched_ok st \<Longrightarrow> sched_ok (fold scheduleUpdate xs st)"
  by (induction xs arbitrary: st) simp_all

lemma evolves_notify [simp]: "evolves S st (fold scheduleUpdate xs st)"
  by (rule evolves_frame) auto

lemma evolves_fields [simp]:
  "evolves S st (st\<lparr>out := x\<rparr>)"
  "evolves S st (st\<lparr>currentEffect := y\<rparr>)"
  "evolves S st (st\<lparr>signals := z\<rparr>)"
  "evolves S st (st\<lparr>effectQueue := set_delete e (effectQueue st)\<rparr>)"
  "evolves S st (st\<lparr>console := l\<rparr>)"
  by (rule evolves_frame; simp add: sched_ok_def)+

lemma evolves_track [simp]: "evolves S st (track r st)"
proof (cases "currentEffect st")
  case None
  then show ?thesis by simp
next
  case (Some c)
  show ?thesis unfolding evolves_def
    apply (intro conjI)
         apply (simp_all add: sched_ok_def)
      apply (cases r; simp add: track_def Some map_comp_def map_subs_def)
     apply (cases r; simp add: track_def Some map_comp_def map_subs_def)
    apply (rule exI[of _ "[Edge c r]"])
    apply (cases r; auto simp add: track_def Some map_comp_def map_subs_def)
    done
qed

lemma next_comp_signal_call [simp]: "next_comp (snd (signal_call s a st)) = next_comp st"
  by (simp add: signal_call_def Let_def split: option.splits)

lemma evolves_signal_call [simp]: "evolves S st (snd (signal_call s a st))"
proof -
  have "evolves S st (case a of None \<Rightarrow> st
                 | Some newValue \<Rightarrow>
                     if \<not> strict_eq newValue (sig_value (signals st s))
                     then fold scheduleUpdate (subscribers (signals st s))
                            (st\<lparr>signals := (signals st)(s := (signals st s)\<lparr>sig_value := newValue\<rparr>)\<rparr>)
                     else st)" (is "evolves S st ?m")
    by (auto split: option.splits intro: evolves_trans[OF evolves_fields(3) evolves_notify])
  then have "evolves S st (track (SignalSubs s) ?m)"
    by (rule evolves_trans) simp
  then show ?thesis by (simp add: signal_call_def Let_def)
qed

lemma evolves_onCleanup [simp]: "evolves S st (onCleanup f st)"
  by (cases "currentEffect st")
     (auto simp: onCleanup_def map_comp_def sched_ok_def intro!: evolves_frame split: if_splits)

lemma next_comp_onCleanup [simp]: "next_comp (onCleanup f st) = next_comp st"
  by (simp add: onCleanup_def map_comp_def split: option.splits)

lemma next_comp_run_cleanup [simp]: "next_comp (snd (run_cleanup c st)) = next_comp st"
  by (induction c arbitrary: st) (simp_all add: split_beta)

lemma evolves_run_cleanup [simp]: "evolves S st (snd (run_cleanup c st))"
proof (induction c arbitrary: st)
  case CDone
  then show ?case by simp
next
  case (CEmit v c)
  show ?case using evolves_trans[OF evolves_fields(1) CEmit] by simp
next
  case (CRead s k)
  show ?case
    using evolves_trans[OF evolves_signal_call CRead] by (simp add: split_beta)
next
  case (CWrite s v c)
  show ?case using evolves_trans[OF evolves_signal_call CWrite] by simp
next
  case (CThrow x)
  then show ?case by simp
qed

lemma evolves_call_each [simp]: "evolves S st (snd (call_each cs st))"
proof (induction cs arbitrary: st)
  case Nil
  then show ?case by simp
next
  case (Cons c cs)
  show ?case
  proof (cases "run_cleanup c st")
    case (Pair r st')
    have e: "evolves S st st'" using evolves_run_cleanup[of S st c] Pair by simp
    show ?thesis using Pair e evolves_trans[OF e Cons[of st']]
      by (cases r) simp_all
  qed
qed

lemma next_comp_call_each [simp]: "next_comp (snd (call_each cs st)) = next_comp st"
proof (induction cs arbitrary: st)
  case Nil
  then show ?case by simp
next
  case (Cons c cs)
  show ?case
  proof (cases "run_cleanup c st")
    case (Pair r st')
    have e: "next_comp st' = next_comp st" using next_comp_run_cleanup[of c st] Pair by simp
    show ?thesis using Pair e Cons[of st']
      by (cases r) simp_all
  qed
qed

lemma evolves_call_each_guarded [simp]: "evolves S st (call_each_guarded cs st)"
proof (induction cs arbitrary: st)
  case Nil
  then show ?case by simp
next
  case (Cons c cs)
  show ?case
  proof (cases "run_cleanup c st")
    case (Pair r st')
    have e: "evolves S st st'" using evolves_run_cleanup[of S st c] Pair by simp
    show ?thesis
    proof (cases r)
      case (Returned v)
      then show ?thesis using Pair evolves_trans[OF e Cons[of st']] by simp
    next
      case (Thrown x)
      have "evolves S st (st'\<lparr>console := console st' @ [RootCleanupFailed x]\<rparr>)"
        by (rule evolves_trans[OF e]) simp
      from evolves_trans[OF this Cons] show ?thesis using Pair Thrown by simp
    qed
  qed
qed

lemma next_comp_call_each_guarded [simp]: "next_comp (call_each_guarded cs st) = next_comp st"
proof (induction cs arbitrary: st)
  case Nil
  then show ?case by simp
next
  case (Cons c cs)
  show ?case
  proof (cases "run_cleanup c st")
    case (Pair r st')
    have e: "next_comp st' = next_comp st" using next_comp_run_cleanup[of c st] Pair by simp
    show ?thesis using Pair e Cons
      by (cases r) simp_all
  qed
qed

lemma evolves_new_signal [simp]: "evolves S st (new_signal v st)"
  by (rule evolves_frame) (simp_all add: new_signal_def sched_ok_def)

lemma evolves_new_comp: "next_comp st \<notin> S \<Longrightarrow> evolves S st (new_comp k f st)"
  by (rule evolves_frame) (auto simp add: new_comp_def sched_ok_def)

lemma next_comp_new_comp [simp]: "next_comp (new_comp k f st) = Suc (next_comp st)"
  by (simp add: new_comp_def)

lemma map_subs_frame [simp]:
  "currentEffect (map_subs r f st) = currentEffect st"
  "effectQueue (map_subs r f st) = effectQueue st"
  "isBatching (map_subs r f st) = isBatching st"
  "microtasks (map_subs r f st) = microtasks st"
  "next_signal (map_subs r f st) = next_signal st"
  "next_comp (map_subs r f st) = next_comp st"
  "console (map_subs r f st) = console st"
  "out (map_subs r f st) = out st"
  "history (map_subs r f st) = history st"
  "kind (comps (map_subs r f st) c) = kind (comps st c)"
  "comp_fn (comps (map_subs r f st) c) = comp_fn (comps st c)"
  "dependencies (comps (map_subs r f st) c) = dependencies (comps st c)"
  "cleanups (comps (map_subs r f st) c) = cleanups (comps st c)"
  "disposed (comps (map_subs r f st) c) = disposed (comps st c)"
  "running (comps (map_subs r f st) c) = running (comps st c)"
  "memo_value (comps (map_subs r f st) c) = memo_value (comps st c)"
  "initialized (comps (map_subs r f st) c) = initialized (comps st c)"
  "sig_value (signals (map_subs r f st) s) = sig_value (signals st s)"
  by (cases r; simp add: map_subs_def)+

lemma fold_map_subs_frame [simp]:
  "currentEffect (fold (\<lambda>r. map_subs r f) rs st) = currentEffect st"
  "effectQueue (fold (\<lambda>r. map_subs r f) rs st) = effectQueue st"
  "isBatching (fold (\<lambda>r. map_subs r f) rs st) = isBatching st"
  "microtasks (fold (\<lambda>r. map_subs r f) rs st) = microtasks st"
  "next_signal (fold (\<lambda>r. map_subs r f) rs st) = next_signal st"
  "next_comp (fold (\<lambda>r. map_subs r f) rs st) = next_comp st"
  "console (fold (\<lambda>r. map_subs r f) rs st) = console st"
  "out (fold (\<lambda>r. map_subs r f) rs st) = out st"
  "history (fold (\<lambda>r. map_subs r f) rs st) = history st"
  "kind (comps (fold (\<lambda>r. map_subs r f) rs st) c) = kind (comps st c)"
  "comp_fn (comps (fold (\<lambda>r. map_subs r f) rs st) c) = comp_fn (comps st c)"
  "dependencies (comps (fold (\<lambda>r. map_subs r f) rs st) c) = dependencies (comps st c)"
  "cleanups (comps (fold (\<lambda>r. map_subs r f) rs st) c) = cleanups (comps st c)"
  "disposed (comps (fold (\<lambda>r. map_subs r f) rs st) c) = disposed (comps st c)"
  "running (comps (fold (\<lambda>r. map_subs r f) rs st) c) = running (comps st c)"
  "memo_value (comps (fold (\<lambda>r. map_subs r f) rs st) c) = memo_value (comps st c)"
  "initialized (comps (fold (\<lambda>r. map_subs r f) rs st) c) = initialized (comps st c)"
  "sig_value (signals (fold (\<lambda>r. map_subs r f) rs st) s) = sig_value (signals st s)"
  by (induction rs arbitrary: st; simp)+

lemma map_comp_frame [simp]:
  "currentEffect (map_comp c f st) = currentEffect st"
  "effectQueue (map_comp c f st) = effectQueue st"
  "isBatching (map_comp c f st) = isBatching st"
  "microtasks (map_comp c f st) = microtasks st"
  "signals (map_comp c f st) = signals st"
  "next_signal (map_comp c f st) = next_signal st"
  "next_comp (map_comp c f st) = next_comp st"
  "console (map_comp c f st) = console st"
  "out (map_comp c f st) = out st"
  "history (map_comp c f st) = history st"
  "comps (map_comp c f st) c' = (if c' = c then f (comps st c) else comps st c')"
  by (simp_all add: map_comp_def)

lemma unsubscribe_frame [simp]:
  "currentEffect (unsubscribe e st) = currentEffect st"
  "effectQueue (unsubscribe e st) = effectQueue st"
  "isBatching (unsubscribe e st) = isBatching st"
  "microtasks (unsubscribe e st) = microtasks st"
  "next_signal (unsubscribe e st) = next_signal st"
  "next_comp (unsubscribe e st) = next_comp st"
  "console (unsubscribe e st) = console st"
  "out (unsubscribe e st) = out st"
  "history (unsubscribe e st) = history st"
  "kind (comps (unsubscribe e st) c) = kind (comps st c)"
  "comp_fn (comps (unsubscribe e st) c) = comp_fn (comps st c)"
  "dependencies (comps (unsubscribe e st) c) = (if c = e then [] else dependencies (comps st c))"
  "cleanups (comps (unsubscribe e st) c) = cleanups (comps st c)"
  "disposed (comps (unsubscribe e st) c) = disposed (comps st c)"
  "running (comps (unsubscribe e st) c) = running (comps st c)"
  "memo_value (comps (unsubscribe e st) c) = memo_value (comps st c)"
  "initialized (comps (unsubscribe e st) c) = initialized (comps st c)"
  "sig_value (signals (unsubscribe e st) s) = sig_value (signals st s)"
  by (simp_all add: unsubscribe_def del: unsubscribe_nil)

lemma evolves_unsubscribe: "e \<notin> S \<or> disposed (comps st e) \<Longrightarrow> evolves S st (unsubscribe e st)"
  by (rule evolves_frame) (auto simp: sched_ok_def)

lemma evolves_map_comp:
  assumes "c \<in> S \<longrightarrow> kind (f (comps st c)) = kind (comps st c)
            \<and> comp_fn (f (comps st c)) = comp_fn (comps st c)
            \<and> memo_value (f (comps st c)) = memo_value (comps st c)
            \<and> initialized (f (comps st c)) = initialized (comps st c)
            \<and> (disposed (comps st c) \<longrightarrow> disposed (f (comps st c)))
            \<and> (\<not> disposed (f (comps st c)) \<longrightarrow> dependencies (f (comps st c)) = dependencies (comps st c))"
     "running (f (comps st c)) \<longrightarrow> running (comps st c)"
   shows "evolves S st (map_comp c f st)"
  by (rule evolves_frame) (use assms in \<open>auto simp: sched_ok_def\<close>)

lemma evolves_entered: "e \<notin> S \<Longrightarrow> evolves S st (entered e st)"
  unfolding evolves_def
  by (intro conjI; (rule exI[of _ "[Invoked e]"])?) (auto simp: sched_ok_def)

lemma evolves_effect_dispose [simp]: "evolves S st (snd (effect_dispose e st))"
proof (cases "disposed (comps st e)")
  case True
  then show ?thesis by (simp add: effect_dispose_def)
next
  case False
  define st1 where "st1 = map_comp e (\<lambda>k. k\<lparr>disposed := True\<rparr>) st"
  obtain r st2 where c: "call_each (cleanups (comps st1 e)) st1 = (r, st2)" by force
  have e1: "evolves S st st1" unfolding st1_def by (rule evolves_map_comp) simp_all
  have e2: "evolves S st1 st2" using evolves_call_each[of S st1 "cleanups (comps st1 e)"] c by simp
  have "evolves (insert e S) st1 st2"
    using evolves_call_each[of "insert e S" st1 "cleanups (comps st1 e)"] c by simp
  then have d: "disposed (comps st2 e)" by (rule evolves_disposed) (simp_all add: st1_def)
  have e3: "evolves S st2 (unsubscribe e st2)" using d by (simp add: evolves_unsubscribe)
  have e4: "evolves S (unsubscribe e st2)
              ((unsubscribe e st2)\<lparr>effectQueue := set_delete e (effectQueue (unsubscribe e st2))\<rparr>)"
    by (rule evolves_fields)
  show ?thesis
  proof (cases r)
    case (Returned v)
    then show ?thesis
      using False c evolves_trans[OF e1 evolves_trans[OF e2 evolves_trans[OF e3 e4]]]
      by (simp add: effect_dispose_def Let_def st1_def[symmetric])
  next
    case (Thrown x)
    then show ?thesis using False c evolves_trans[OF e1 e2]
      by (simp add: effect_dispose_def Let_def st1_def[symmetric])
  qed
qed

lemma evolves_root_dispose [simp]: "evolves S st (root_dispose r st)"
proof (cases "disposed (comps st r)")
  case True
  then show ?thesis by (simp add: root_dispose_def)
next
  case False
  define st1 where "st1 = map_comp r (\<lambda>k. k\<lparr>disposed := True\<rparr>) st"
  define st2 where "st2 = call_each_guarded (cleanups (comps st1 r)) st1"
  have e1: "evolves S st st1" unfolding st1_def by (rule evolves_map_comp) simp_all
  have e2: "evolves S st1 st2" unfolding st2_def by simp
  have e3: "evolves S st2 (map_comp r (\<lambda>k. k\<lparr>cleanups := []\<rparr>) st2)"
    by (rule evolves_map_comp) simp_all
  show ?thesis using False evolves_trans[OF e1 evolves_trans[OF e2 e3]]
    by (simp add: root_dispose_def Let_def st1_def[symmetric] st2_def[symmetric])
qed

lemma evolves_dispose [simp]: "evolves S st (snd (dispose c st))"
  by (cases "kind (comps st c)") (simp_all add: dispose_def)

lemma evolves_memoGetter [simp]: "evolves S st (snd (memoGetter m st))"
  by (simp add: memoGetter_def Let_def)

lemma evolves_effect_fn:
  assumes e: "e \<notin> S"
    and f: "\<And>st'. next_comp st' = next_comp st \<Longrightarrow> evolves S st' (snd (f st'))"
  shows "evolves S st (snd (effect_fn f e st))"
proof -
  obtain r st1 where c: "call_each (cleanups (comps st e)) st = (r, st1)" by force
  define st3 where "st3 = unsubscribe e (map_comp e (\<lambda>k. k\<lparr>cleanups := []\<rparr>) st1)"
  obtain r' st4 where b: "f (st3\<lparr>currentEffect := Some e\<rparr>) = (r', st4)" by force
  have e1: "evolves S st st1" using evolves_call_each[of S st "cleanups (comps st e)"] c by simp
  have n1: "next_comp st1 = next_comp st"
    using next_comp_call_each[of "cleanups (comps st e)" st] c by simp
  have e2: "evolves S st1 st3" unfolding st3_def
    by (rule evolves_trans[OF evolves_map_comp evolves_unsubscribe]) (use e in simp_all)
  have n3: "next_comp st3 = next_comp st" by (simp add: st3_def n1)
  have e3: "evolves S st3 (st3\<lparr>currentEffect := Some e\<rparr>)" by simp
  have e4: "evolves S (st3\<lparr>currentEffect := Some e\<rparr>) st4"
    using f[of "st3\<lparr>currentEffect := Some e\<rparr>"] b n3 by simp
  have e5: "evolves S st (st4\<lparr>currentEffect := y\<rparr>)" for y
    by (rule evolves_trans[OF e1 evolves_trans[OF e2 evolves_trans[OF e3 evolves_trans[OF e4]]]]) simp
  show ?thesis
  proof (cases r)
    case (Thrown x)
    then show ?thesis using c e1
      by (simp add: effect_fn_def Let_def)
  next
    case (Returned v)
    then show ?thesis
      using c b e5
      by (simp add: effect_fn_def Let_def st3_def[symmetric])
  qed
qed

lemma evolves_memo_update: "m \<notin> S \<Longrightarrow> evolves S st (memo_update m v st)"
proof -
  assume "m \<notin> S"
  then have "evolves S st (map_comp m (\<lambda>k. k\<lparr>memo_value := v, initialized := True\<rparr>) st)"
    by (intro evolves_map_comp) simp_all
  then show ?thesis unfolding memo_update_def
    by (auto intro: evolves_trans[OF _ evolves_notify])
qed

lemma evolves_memo_fn:
  assumes e: "e \<notin> S"
    and f: "\<And>st'. next_comp st' = next_comp st \<Longrightarrow> evolves S st' (snd (f st'))"
  shows "evolves S st (snd (memo_fn f e st))"
proof -
  obtain r st1 where c: "call_each (cleanups (comps st e)) st = (r, st1)" by force
  define st3 where "st3 = unsubscribe e (map_comp e (\<lambda>k. k\<lparr>cleanups := []\<rparr>) st1)"
  obtain r' st4 where b: "f (st3\<lparr>currentEffect := Some e\<rparr>) = (r', st4)" by force
  have e1: "evolves S st st1" using evolves_call_each[of S st "cleanups (comps st e)"] c by simp
  have n1: "next_comp st1 = next_comp st"
    using next_comp_call_each[of "cleanups (comps st e)" st] c by simp
  have e2: "evolves S st1 st3" unfolding st3_def
    by (rule evolves_trans[OF evolves_map_comp evolves_unsubscribe]) (use e in simp_all)
  have n3: "next_comp st3 = next_comp st" by (simp add: st3_def n1)
  have e3: "evolves S st3 (st3\<lparr>currentEffect := Some e\<rparr>)" by simp
  have e4: "evolves S (st3\<lparr>currentEffect := Some e\<rparr>) st4"
    using f[of "st3\<lparr>currentEffect := Some e\<rparr>"] b n3 by simp
  have e04: "evolves S st st4"
    by (rule evolves_trans[OF e1 evolves_trans[OF e2 evolves_trans[OF e3 e4]]])
  show ?thesis
  proof (cases r)
    case (Thrown x)
    then show ?thesis using c e1
      by (simp add: memo_fn_def Let_def)
  next
    case (Returned v)
    show ?thesis
    proof (cases r')
      case (Thrown x)
      have "evolves S st (st4\<lparr>currentEffect := y\<rparr>)" for y
        by (rule evolves_trans[OF e04]) simp
      then show ?thesis using c b Returned Thrown
        by (simp add: memo_fn_def Let_def st3_def[symmetric])
    next
      case R: (Returned nv)
      have "evolves S st4 (memo_update e nv st4)"
        by (rule evolves_memo_update) (use e in simp)
      then have "evolves S st4 ((memo_update e nv st4)\<lparr>currentEffect := y\<rparr>)" for y
        by (rule evolves_trans) simp
      from evolves_trans[OF e04 this] show ?thesis using c b Returned R
        by (simp add: memo_fn_def Let_def st3_def[symmetric])
    qed
  qed
qed

text \<open>Running any caller code respects every computation that existed before.\<close>

lemma exec_evolves: "\<forall>c\<in>S. c < next_comp st \<Longrightarrow> evolves S st (snd (exec p st))"
proof (induction p arbitrary: st)
  case (Return v)
  then show ?case by simp
next
  case (Throw x)
  then show ?case by simp
next
  case (Emit v p)
  show ?case using evolves_trans[OF evolves_fields(1) Emit.IH] Emit.prems by simp
next
  case (CreateSignal v k)
  have "evolves S (new_signal v st) (snd (exec (k (next_signal st)) (new_signal v st)))"
    by (rule CreateSignal.IH) (use CreateSignal.prems in \<open>simp_all add: new_signal_def\<close>)
  from evolves_trans[OF evolves_new_signal this] show ?case by simp
next
  case (SigGet s k)
  obtain v st' where c: "signal_call s None st = (v, st')" by force
  have a: "evolves S st st'" using evolves_signal_call[of S st s None] c by simp
  have "next_comp st' = next_comp st" using next_comp_signal_call[of s None st] c by simp
  then have "evolves S st' (snd (exec (k v) st'))"
    using SigGet.prems by (intro SigGet.IH) simp_all
  from evolves_trans[OF a this] show ?case using c by simp
next
  case (SigSet s w k)
  obtain v st' where c: "signal_call s (Some w) st = (v, st')" by force
  have a: "evolves S st st'" using evolves_signal_call[of S st s "Some w"] c by simp
  have "next_comp st' = next_comp st" using next_comp_signal_call[of s "Some w" st] c by simp
  then have "evolves S st' (snd (exec (k v) st'))"
    using SigSet.prems by (intro SigSet.IH) simp_all
  from evolves_trans[OF a this] show ?case using c by simp
next
  case (OnCleanup f p)
  have "evolves S (onCleanup f st) (snd (exec p (onCleanup f st)))"
    using OnCleanup.prems by (intro OnCleanup.IH) simp
  from evolves_trans[OF evolves_onCleanup this] show ?case by simp
next
  case (CreateEffect fn k)
  define e where "e = next_comp st"
  define st1 where "st1 = entered e (new_comp EffectFn fn st)"
  have eS: "e \<notin> S" using CreateEffect.prems e_def by auto
  have a: "evolves S st st1" unfolding st1_def
    by (rule evolves_trans[OF evolves_new_comp evolves_entered]) (use eS e_def in simp_all)
  obtain r st2 where c: "effect_fn (exec fn) e st1 = (r, st2)" by force
  have "evolves S st1 (snd (effect_fn (exec fn) e st1))"
  proof (rule evolves_effect_fn[OF eS])
    fix st' :: state assume "next_comp st' = next_comp st1"
    then show "evolves S st' (snd (exec fn st'))"
      using CreateEffect.prems by (intro CreateEffect.IH(1)) (auto simp: st1_def)
  qed
  then have b: "evolves S st1 st2" using c by simp
  have ab: "evolves S st st2" by (rule evolves_trans[OF a b])
  show ?case
  proof (cases r)
    case (Thrown x)
    then show ?thesis using c ab by (simp add: e_def st1_def)
  next
    case (Returned v)
    have "evolves S st2 (snd (exec (k e) st2))"
      using CreateEffect.prems evolves_next_comp[OF ab] by (intro CreateEffect.IH(2)) auto
    from evolves_trans[OF ab this] show ?thesis using c Returned by (simp add: e_def st1_def)
  qed
next
  case (CreateMemo fn k)
  define e where "e = next_comp st"
  define st1 where "st1 = entered e (new_comp MemoFn fn st)"
  have eS: "e \<notin> S" using CreateMemo.prems e_def by auto
  have a: "evolves S st st1" unfolding st1_def
    by (rule evolves_trans[OF evolves_new_comp evolves_entered]) (use eS e_def in simp_all)
  obtain r st2 where c: "memo_fn (exec fn) e st1 = (r, st2)" by force
  have "evolves S st1 (snd (memo_fn (exec fn) e st1))"
  proof (rule evolves_memo_fn[OF eS])
    fix st' :: state assume "next_comp st' = next_comp st1"
    then show "evolves S st' (snd (exec fn st'))"
      using CreateMemo.prems by (intro CreateMemo.IH(1)) (auto simp: st1_def)
  qed
  then have b: "evolves S st1 st2" using c by simp
  have ab: "evolves S st st2" by (rule evolves_trans[OF a b])
  show ?case
  proof (cases r)
    case (Thrown x)
    then show ?thesis using c ab by (simp add: e_def st1_def)
  next
    case (Returned v)
    have "evolves S st2 (snd (exec (k e) st2))"
      using CreateMemo.prems evolves_next_comp[OF ab] by (intro CreateMemo.IH(2)) auto
    from evolves_trans[OF ab this] show ?thesis using c Returned by (simp add: e_def st1_def)
  qed
next
  case (MemoGet m k)
  obtain v st' where c: "memoGetter m st = (v, st')" by force
  have a: "evolves S st st'" using evolves_memoGetter[of S st m] c by simp
  have "next_comp st' = next_comp st" using c by (auto simp: memoGetter_def Let_def)
  then have "evolves S st' (snd (exec (k v) st'))"
    using MemoGet.prems by (intro MemoGet.IH) simp_all
  from evolves_trans[OF a this] show ?case using c by simp
next
  case (CreateRoot fn k)
  define e where "e = next_comp st"
  define st1 where "st1 = new_comp RootCtx (Return VUndef) st"
  have eS: "e \<notin> S" using CreateRoot.prems e_def by auto
  have a: "evolves S st st1" unfolding st1_def by (rule evolves_new_comp) (use eS e_def in simp)
  obtain r st2 where c: "exec (fn e) (st1\<lparr>currentEffect := Some e\<rparr>) = (r, st2)" by force
  have "evolves S (st1\<lparr>currentEffect := Some e\<rparr>) (snd (exec (fn e) (st1\<lparr>currentEffect := Some e\<rparr>)))"
    using CreateRoot.prems by (intro CreateRoot.IH(1)) (auto simp: st1_def)
  then have b: "evolves S (st1\<lparr>currentEffect := Some e\<rparr>) st2" using c by simp
  have ab: "evolves S st st2" by (rule evolves_trans[OF a evolves_trans[OF _ b]]) simp
  define st3 where "st3 = (case r of Thrown x \<Rightarrow> st2\<lparr>console := console st2 @ [RootFailed x], currentEffect := currentEffect st1\<rparr>
                             | Returned _ \<Rightarrow> st2\<lparr>currentEffect := currentEffect st1\<rparr>)"
  have "evolves S st2 st3" unfolding st3_def
    by (cases r) (auto intro!: evolves_frame simp: sched_ok_def)
  then have ac: "evolves S st st3" by (rule evolves_trans[OF ab])
  have ae: "evolves S st3 (snd (exec (k e) st3))"
    using CreateRoot.prems evolves_next_comp[OF ac] by (intro CreateRoot.IH(2)) auto
  have ad: "evolves S st (st2\<lparr>currentEffect := currentEffect st1\<rparr>)"
    by (rule evolves_trans[OF ab]) simp
  from evolves_trans[OF ac ae] ad show ?case using c
    by (cases r) (simp_all add: e_def[symmetric] st1_def[symmetric] st3_def Let_def)
next
  case (Dispose c p)
  obtain r st' where d: "dispose c st = (r, st')" by force
  have a: "evolves S st st'" using evolves_dispose[of S st c] d by simp
  show ?case
  proof (cases r)
    case (Thrown x)
    then show ?thesis using a d by simp
  next
    case (Returned v)
    have "evolves S st' (snd (exec p st'))"
      using Dispose.prems evolves_next_comp[OF a] by (intro Dispose.IH) auto
    from evolves_trans[OF a this] show ?thesis using d Returned by simp
  qed
qed

subsection \<open>The ambient-context register\<close>

lemma currentEffect_signal_call [simp]: "currentEffect (snd (signal_call s a st)) = currentEffect st"
  by (simp add: signal_call_def Let_def split: option.splits)

lemma currentEffect_onCleanup [simp]: "currentEffect (onCleanup f st) = currentEffect st"
  by (simp add: onCleanup_def split: option.splits)

lemma currentEffect_run_cleanup [simp]: "currentEffect (snd (run_cleanup c st)) = currentEffect st"
  by (induction c arbitrary: st) (simp_all add: split_beta)

lemma currentEffect_call_each [simp]: "currentEffect (snd (call_each cs st)) = currentEffect st"
proof (induction cs arbitrary: st)
  case Nil
  then show ?case by simp
next
  case (Cons c cs)
  show ?case
  proof (cases "run_cleanup c st")
    case (Pair r st')
    have "currentEffect st' = currentEffect st" using currentEffect_run_cleanup[of c st] Pair by simp
    then show ?thesis using Pair Cons[of st'] by (cases r) simp_all
  qed
qed

lemma currentEffect_call_each_guarded [simp]: "currentEffect (call_each_guarded cs st) = currentEffect st"
proof (induction cs arbitrary: st)
  case Nil
  then show ?case by simp
next
  case (Cons c cs)
  show ?case
  proof (cases "run_cleanup c st")
    case (Pair r st')
    have "currentEffect st' = currentEffect st" using currentEffect_run_cleanup[of c st] Pair by simp
    then show ?thesis using Pair Cons by (cases r) simp_all
  qed
qed

lemma currentEffect_new [simp]:
  "currentEffect (new_signal v st) = currentEffect st"
  "currentEffect (new_comp k f st) = currentEffect st"
  by (simp_all add: new_signal_def new_comp_def)

lemma currentEffect_effect_dispose [simp]: "currentEffect (snd (effect_dispose e st)) = currentEffect st"
proof -
  have "currentEffect (snd (call_each cs (map_comp e f st))) = currentEffect st" for cs f
    using currentEffect_call_each[of cs "map_comp e f st"] by simp
  then show ?thesis
    by (auto simp add: effect_dispose_def Let_def split_beta split: outcome.splits)
qed

lemma currentEffect_root_dispose [simp]: "currentEffect (root_dispose r st) = currentEffect st"
  by (simp add: root_dispose_def Let_def)

lemma currentEffect_dispose [simp]: "currentEffect (snd (dispose c st)) = currentEffect st"
  by (cases "kind (comps st c)") (simp_all add: dispose_def)

lemma currentEffect_memoGetter [simp]: "currentEffect (snd (memoGetter m st)) = currentEffect st"
  by (simp add: memoGetter_def Let_def)

text \<open>The two closures restore the register whatever the callback does.\<close>

lemma currentEffect_effect_fn [simp]: "currentEffect (snd (effect_fn f e st)) = currentEffect st"
proof -
  obtain r st1 where c: "call_each (cleanups (comps st e)) st = (r, st1)" by force
  have "currentEffect st1 = currentEffect st"
    using currentEffect_call_each[of "cleanups (comps st e)" st] c by simp
  then show ?thesis using c
    by (cases r) (simp_all add: effect_fn_def Let_def split_beta)
qed

lemma currentEffect_memo_fn [simp]: "currentEffect (snd (memo_fn f m st)) = currentEffect st"
proof -
  obtain r st1 where c: "call_each (cleanups (comps st m)) st = (r, st1)" by force
  have "currentEffect st1 = currentEffect st"
    using currentEffect_call_each[of "cleanups (comps st m)" st] c by simp
  then show ?thesis using c
    by (cases r) (simp_all add: memo_fn_def Let_def split_beta split: outcome.splits)
qed

lemma currentEffect_exec [simp]: "currentEffect (snd (exec p st)) = currentEffect st"
proof (induction p arbitrary: st)
  case (CreateEffect fn k)
  obtain r st2 where c: "effect_fn (exec fn) (next_comp st) (entered (next_comp st) (new_comp EffectFn fn st)) = (r, st2)"
    by force
  have "currentEffect st2 = currentEffect st"
    using currentEffect_effect_fn[of "exec fn" "next_comp st" "entered (next_comp st) (new_comp EffectFn fn st)"] c
    by simp
  then show ?case using c CreateEffect.IH(2) by (cases r) simp_all
next
  case (CreateMemo fn k)
  obtain r st2 where c: "memo_fn (exec fn) (next_comp st) (entered (next_comp st) (new_comp MemoFn fn st)) = (r, st2)"
    by force
  have "currentEffect st2 = currentEffect st"
    using currentEffect_memo_fn[of "exec fn" "next_comp st" "entered (next_comp st) (new_comp MemoFn fn st)"] c
    by simp
  then show ?case using c CreateMemo.IH(2) by (cases r) simp_all
next
  case (CreateRoot fn k)
  then show ?case by (simp add: Let_def split_beta split: outcome.splits)
next
  case (Dispose c p)
  obtain r st' where d: "dispose c st = (r, st')" by force
  have "currentEffect st' = currentEffect st" using currentEffect_dispose[of c st] d by simp
  then show ?case using d Dispose.IH by (cases r) simp_all
qed (simp_all add: split_beta)

lemma currentEffect_call_comp [simp]: "currentEffect (snd (call_comp c st)) = currentEffect st"
  by (cases "kind (comps st c)") (simp_all add: call_comp_def)

lemma currentEffect_flush_one [simp]: "currentEffect (snd (flush_one c st)) = currentEffect st"
proof -
  have "currentEffect (snd (call_comp c (map_comp c f (st\<lparr>effectQueue := q\<rparr>)))) = currentEffect st" for f q
    using currentEffect_call_comp[of c "map_comp c f (st\<lparr>effectQueue := q\<rparr>)"] by simp
  then show ?thesis
    by (simp add: flush_one_def Let_def split_beta split: outcome.splits)
qed

lemma currentEffect_flush_loop [simp]: "currentEffect (snd (flush_loop q st)) = currentEffect st"
proof (induction q arbitrary: st)
  case Nil
  then show ?case by simp
next
  case (Cons c q)
  obtain r st1 where f: "flush_one c st = (r, st1)" by force
  have "currentEffect st1 = currentEffect st" using currentEffect_flush_one[of c st] f by simp
  then show ?case using f Cons[of st1] by (cases r) simp_all
qed

lemma currentEffect_flush [simp]: "currentEffect (flush st) = currentEffect st"
  by (simp add: flush_def flush_callback_def Let_def)

lemma currentEffect_run_microtask [simp]: "currentEffect (run_microtask st) = currentEffect st"
  by (simp add: run_microtask_eq)

subsection \<open>Signal reads and writes\<close>

text \<open>
  C4. A write \<open>signal(newValue)\<close> with a value strictly equal to the stored one changes
  neither the value nor the queue nor the pending flush: it leaves exactly the state a
  plain read leaves, and with no ambient context the state is untouched. A write with a
  value that is not strictly equal stores it and enqueues every current subscriber, in
  the order of the subscriber set, which leaves a flush pending when there is a
  subscriber. A read with no ambient context returns the value and changes nothing.
\<close>

theorem signal_write_semantics:
  "(strict_eq v (sig_value (signals st s)) \<longrightarrow>
      sig_value (signals (snd (signal_call s (Some v) st)) s) = sig_value (signals st s)
    \<and> effectQueue (snd (signal_call s (Some v) st)) = effectQueue st
    \<and> isBatching (snd (signal_call s (Some v) st)) = isBatching st
    \<and> microtasks (snd (signal_call s (Some v) st)) = microtasks st
    \<and> snd (signal_call s (Some v) st) = snd (signal_call s None st)
    \<and> (currentEffect st = None \<longrightarrow> snd (signal_call s (Some v) st) = st))
 \<and> (\<not> strict_eq v (sig_value (signals st s)) \<longrightarrow>
      sig_value (signals (snd (signal_call s (Some v) st)) s) = v
    \<and> effectQueue (snd (signal_call s (Some v) st))
        = fold set_add (subscribers (signals st s)) (effectQueue st)
    \<and> set (subscribers (signals st s)) \<subseteq> set (effectQueue (snd (signal_call s (Some v) st)))
    \<and> (subscribers (signals st s) \<noteq> [] \<longrightarrow> isBatching (snd (signal_call s (Some v) st))))
 \<and> (currentEffect st = None \<longrightarrow> signal_call s None st = (sig_value (signals st s), st))"
  by (simp add: signal_call_def Let_def)

theorem signal_write_semantics_witness:
  "snd (signal_call 0 (Some (VNum 5)) one_subscriber) = one_subscriber
 \<and> sig_value (signals (snd (signal_call 0 (Some (VNum 6)) one_subscriber)) 0) = VNum 6
 \<and> effectQueue (snd (signal_call 0 (Some (VNum 6)) one_subscriber)) = [0]
 \<and> isBatching (snd (signal_call 0 (Some (VNum 6)) one_subscriber))
 \<and> signal_call 0 None one_subscriber = (VNum 5, one_subscriber)"
  using signal_write_semantics [of "VNum 5" one_subscriber 0]
        signal_write_semantics [of "VNum 6" one_subscriber 0]
  by (simp add: one_subscriber_def init_state_def strict_eq_def)

text \<open>
  C10. A setter call \<open>signal(newValue)\<close> made while a computation is the ambient context
  runs the tracking block too: the computation is added to the signal's subscriber set
  and the subscriber set to the computation's dependencies, and the call returns the
  stored value, which is \<open>newValue\<close>. So an effect whose body only writes a signal is
  subscribed to it after its first run.
\<close>

theorem setter_tracks:
  "(currentEffect st = Some c \<longrightarrow>
      c \<in> set (subscribers (signals (snd (signal_call s (Some v) st)) s))
    \<and> SignalSubs s \<in> set (dependencies (comps (snd (signal_call s (Some v) st)) c))
    \<and> fst (signal_call s (Some v) st) = sig_value (signals (snd (signal_call s (Some v) st)) s)
    \<and> fst (signal_call s (Some v) st) = v)
 \<and> next_comp st \<in> set (subscribers (signals (snd (exec (write_only s v) st)) s))
 \<and> dependencies (comps (snd (exec (write_only s v) st)) (next_comp st)) = [SignalSubs s]"
  by (auto simp add: signal_call_def Let_def track_def map_comp_def map_subs_def strict_eq_def
        write_only_def effect_fn_def new_comp_def entered_def)

theorem setter_tracks_witness:
  "subscribers (signals (snd (signal_call 0 (Some (VNum 7)) (init_state\<lparr>currentEffect := Some 3\<rparr>))) 0) = [3]
 \<and> dependencies (comps (snd (signal_call 0 (Some (VNum 7)) (init_state\<lparr>currentEffect := Some 3\<rparr>))) 3) = [SignalSubs 0]
 \<and> fst (signal_call 0 (Some (VNum 7)) (init_state\<lparr>currentEffect := Some 3\<rparr>)) = VNum 7"
  using setter_tracks [of "init_state\<lparr>currentEffect := Some 3\<rparr>" 3 0 "VNum 7"]
  by (simp add: init_state_def blank_comp_def signal_call_def track_def map_comp_def map_subs_def
        strict_eq_def Let_def)

subsection \<open>onCleanup\<close>

text \<open>
  C9. \<open>onCleanup(fn)\<close> called while a computation or root is the ambient context appends
  \<open>fn\<close> to that context's cleanup list and changes nothing else; the ambient context is
  the innermost one running, so in a root whose setup creates an effect the effect's
  registration lands on the effect and the root's own on the root. Called with no
  ambient context it returns normally and the only change is the warning on the console.
\<close>

theorem onCleanup_attaches_or_warns:
  "(currentEffect st = Some c \<longrightarrow>
      onCleanup f st = st\<lparr>comps := (comps st)(c := (comps st c)\<lparr>cleanups := cleanups (comps st c) @ [f]\<rparr>)\<rparr>
    \<and> exec (OnCleanup f (Return v)) st = (Returned v, onCleanup f st))
 \<and> (currentEffect st = None \<longrightarrow>
      onCleanup f st = st\<lparr>console := console st @ [CleanupOutside]\<rparr>
    \<and> exec (OnCleanup f (Return v)) st = (Returned v, st\<lparr>console := console st @ [CleanupOutside]\<rparr>))
 \<and> cleanups (comps (snd (exec (nested_cleanups f g) st)) (Suc (next_comp st))) = [f]
 \<and> cleanups (comps (snd (exec (nested_cleanups f g) st)) (next_comp st)) = [g]"
  by (simp add: onCleanup_def map_comp_def nested_cleanups_def effect_fn_def new_comp_def Let_def)

theorem onCleanup_attaches_or_warns_witness:
  "cleanups (comps (onCleanup (CEmit (VNum 1) CDone) (init_state\<lparr>currentEffect := Some 0\<rparr>)) 0)
     = [CEmit (VNum 1) CDone]
 \<and> console (onCleanup (CEmit (VNum 1) CDone) init_state) = [CleanupOutside]
 \<and> comps (onCleanup (CEmit (VNum 1) CDone) init_state) = comps init_state"
  using onCleanup_attaches_or_warns [of "init_state\<lparr>currentEffect := Some 0\<rparr>" 0 "CEmit (VNum 1) CDone" VUndef CDone]
        onCleanup_attaches_or_warns [of init_state 0 "CEmit (VNum 1) CDone" VUndef CDone]
  by (simp add: init_state_def blank_comp_def)

subsection \<open>Restoring the ambient context\<close>

lemma track_adds_dependency:
  "currentEffect st = Some c \<Longrightarrow> r \<in> set (dependencies (comps (track r st) c))"
  by (cases r) (simp_all add: track_def map_comp_def map_subs_def)

lemma signal_call_adds_dependency:
  "currentEffect st = Some c \<Longrightarrow> SignalSubs s \<in> set (dependencies (comps (snd (signal_call s a st)) c))"
  by (cases a) (simp_all add: signal_call_def Let_def track_adds_dependency)

lemma effect_fn_returned:
  assumes "call_each (cleanups (comps st e)) st = (Returned u, st1)"
  shows "effect_fn f e st = (fst (f (body_start e st1)), (snd (f (body_start e st1)))\<lparr>currentEffect := currentEffect st\<rparr>)"
proof -
  have "currentEffect st1 = currentEffect st"
    using currentEffect_call_each[of "cleanups (comps st e)" st] assms by simp
  then show ?thesis using assms
    by (simp add: effect_fn_def Let_def split_beta body_start_def)
qed

lemma effect_fn_thrown:
  assumes "call_each (cleanups (comps st e)) st = (Thrown x, st1)"
  shows "effect_fn f e st = (Thrown x, st1)"
  using assms by (simp add: effect_fn_def)

lemma read_after_memo_tracked:
  assumes "fst (exec (read_after_memo q s) st) = Returned VUndef"
  shows "SignalSubs s \<in> set (dependencies (comps (snd (exec (read_after_memo q s) st)) (next_comp st)))"
proof -
  define e where "e = next_comp st"
  define body where "body = CreateMemo q (\<lambda>m. SigGet s (\<lambda>_. Return VUndef))"
  define st1 where "st1 = entered e (new_comp EffectFn body st)"
  define st3 where "st3 = body_start e st1"
  obtain r st4 where m: "memo_fn (exec q) (next_comp st3) (entered (next_comp st3) (new_comp MemoFn q st3)) = (r, st4)"
    by force
  have "currentEffect st4 = currentEffect st3"
    using currentEffect_memo_fn[of "exec q" "next_comp st3" "entered (next_comp st3) (new_comp MemoFn q st3)"] m
    by simp
  then have c4: "currentEffect st4 = Some e" by (simp add: st3_def body_start_def)
  have b: "exec body st3 = (case r of Thrown x \<Rightarrow> (Thrown x, st4)
                           | Returned _ \<Rightarrow> (Returned VUndef, snd (signal_call s None st4)))"
    using m by (cases r) (simp_all add: body_def split_beta)
  have "call_each (cleanups (comps st1 e)) st1 = (Returned VUndef, st1)"
    by (simp add: st1_def e_def new_comp_def)
  from effect_fn_returned[OF this, of "exec body"]
  have f: "effect_fn (exec body) e st1 = (fst (exec body st3), (snd (exec body st3))\<lparr>currentEffect := currentEffect st1\<rparr>)"
    by (simp add: st3_def)
  have ex: "exec (read_after_memo q s) st =
     (case r of Thrown x \<Rightarrow> (Thrown x, st4\<lparr>currentEffect := currentEffect st1\<rparr>)
      | Returned _ \<Rightarrow> (Returned VUndef, (snd (signal_call s None st4))\<lparr>currentEffect := currentEffect st1\<rparr>))"
    unfolding read_after_memo_def body_def[symmetric]
    using f b by (cases r) (simp_all add: e_def[symmetric] st1_def[symmetric])
  show ?thesis
  proof (cases r)
    case (Thrown x)
    then show ?thesis using assms ex by simp
  next
    case (Returned v)
    then show ?thesis using ex signal_call_adds_dependency[OF c4, of s None] by (simp add: e_def)
  qed
qed

text \<open>
  C8. The closures \<open>effect\<close> and \<open>memoEffect\<close> leave \<open>currentEffect\<close> as they found it
  whatever the function they call does to it or throws; so does every piece of caller
  code, each \<open>createRoot\<close> included, every call of a computation by the scheduler and a
  whole flush. Nesting composes: in an effect that first creates a memo and then reads a
  signal, the read is recorded for the effect, whatever the memo's function did.
\<close>

theorem ambient_context_restored:
  "currentEffect (snd (effect_fn f e st)) = currentEffect st
 \<and> currentEffect (snd (memo_fn f e st)) = currentEffect st
 \<and> currentEffect (snd (exec p st)) = currentEffect st
 \<and> currentEffect (snd (call_comp e st)) = currentEffect st
 \<and> currentEffect (flush st) = currentEffect st
 \<and> (fst (exec (read_after_memo q s) st) = Returned VUndef \<longrightarrow>
      SignalSubs s \<in> set (dependencies (comps (snd (exec (read_after_memo q s) st)) (next_comp st))))"
  using read_after_memo_tracked by simp

theorem ambient_context_restored_witness:
  "currentEffect (snd (exec failing_nest init_state)) = None
 \<and> console (snd (exec failing_nest init_state)) = [RootFailed (VStr ''boom'')]
 \<and> currentEffect (snd (effect_fn (\<lambda>s. (Thrown VUndef, s\<lparr>currentEffect := Some 7\<rparr>)) 0 init_state)) = None
 \<and> dependencies (comps (snd (exec (read_after_memo (Return (VNum 1)) 0) init_state)) 0) = [SignalSubs 0]"
  using ambient_context_restored [of "\<lambda>s. (Thrown VUndef, s\<lparr>currentEffect := Some 7\<rparr>)" 0 init_state
          failing_nest "Return (VNum 1)" 0]
  by (simp add: failing_nest_def read_after_memo_def init_state_def blank_comp_def effect_fn_def memo_fn_def memo_update_def
      new_comp_def signal_call_def track_def map_comp_def map_subs_def nullish_def Let_def)

subsection \<open>The scheduler's rounds\<close>

lemma evolves_quiet: "evolves S st st' \<Longrightarrow> quiet S st st'"
  unfolding evolves_def quiet_def by blast

lemma quiet_refl [simp]: "quiet S st st"
  by (simp add: quiet_def)

lemma quiet_trans:
  assumes "quiet S a b" "quiet S b c" shows "quiet S a c"
proof -
  from assms(1) obtain h1 where h1: "history b = history a @ h1" "\<forall>k\<in>S. Invoked k \<notin> set h1"
    unfolding quiet_def by blast
  from assms(2) obtain h2 where h2: "history c = history b @ h2" "\<forall>k\<in>S. Invoked k \<notin> set h2"
    unfolding quiet_def by blast
  have "history c = history a @ (h1 @ h2)" "\<forall>k\<in>S. Invoked k \<notin> set (h1 @ h2)"
    using h1 h2 by simp_all
  then have "\<exists>h. history c = history a @ h \<and> (\<forall>k\<in>S. Invoked k \<notin> set h)" by blast
  moreover have "next_comp a \<le> next_comp c" using assms unfolding quiet_def by linarith
  moreover have "sched_ok a \<longrightarrow> sched_ok c" using assms unfolding quiet_def by blast
  moreover have "\<forall>k\<in>S. kind (comps c k) = kind (comps a k)
            \<and> comp_fn (comps c k) = comp_fn (comps a k)
            \<and> (disposed (comps a k) \<longrightarrow> disposed (comps c k))"
    using assms unfolding quiet_def by simp
  ultimately show ?thesis unfolding quiet_def by blast
qed

lemma quiet_frame:
  assumes "next_comp st \<le> next_comp st'"
    and "sched_ok st \<longrightarrow> sched_ok st'"
    and "history st' = history st"
    and "\<forall>c\<in>S. kind (comps st' c) = kind (comps st c)
            \<and> comp_fn (comps st' c) = comp_fn (comps st c)
            \<and> (disposed (comps st c) \<longrightarrow> disposed (comps st' c))"
  shows "quiet S st st'"
  unfolding quiet_def using assms by simp

lemma quiet_inv_count: "quiet S st st' \<Longrightarrow> c \<in> S \<Longrightarrow> inv_count c st' = inv_count c st"
  unfolding quiet_def inv_count_def by (auto simp: count_list_0_iff)



lemma quiet_disposed: "quiet S st st' \<Longrightarrow> c \<in> S \<Longrightarrow> disposed (comps st c) \<Longrightarrow> disposed (comps st' c)"
  by (simp add: quiet_def)

lemma quiet_next_comp: "quiet S st st' \<Longrightarrow> next_comp st \<le> next_comp st'"
  by (simp add: quiet_def)

lemma quiet_sched_ok: "quiet S st st' \<Longrightarrow> sched_ok st \<Longrightarrow> sched_ok st'"
  by (simp add: quiet_def)

lemma quiet_body_start [simp]: "quiet S st (body_start e st)"
  by (rule quiet_frame) (auto simp: body_start_def sched_ok_def)

lemma quiet_fields [simp]:
  "quiet S st (st\<lparr>currentEffect := y\<rparr>)"
  "quiet S st (st\<lparr>effectQueue := set_delete e (effectQueue st)\<rparr>)"
  "quiet S st (st\<lparr>console := l\<rparr>)"
  by (rule quiet_frame; simp add: sched_ok_def)+

lemma quiet_effect_fn:
  assumes f: "\<And>st'. next_comp st' = next_comp st \<Longrightarrow> quiet S st' (snd (f st'))"
  shows "quiet S st (snd (effect_fn f e st))"
proof -
  obtain r st1 where c: "call_each (cleanups (comps st e)) st = (r, st1)" by force
  have q1: "quiet S st st1"
    using evolves_quiet[OF evolves_call_each[of S st "cleanups (comps st e)"]] c by simp
  have n1: "next_comp st1 = next_comp st"
    using next_comp_call_each[of "cleanups (comps st e)" st] c by simp
  show ?thesis
  proof (cases r)
    case (Thrown x)
    then show ?thesis using c q1 by (simp add: effect_fn_thrown)
  next
    case (Returned u)
    have "next_comp (body_start e st1) = next_comp st" by (simp add: body_start_def n1)
    from f[OF this] have "quiet S (body_start e st1) (snd (f (body_start e st1)))" .
    from quiet_trans[OF quiet_trans[OF q1 quiet_body_start] quiet_trans[OF this quiet_fields(1)]]
    show ?thesis using c Returned by (simp add: effect_fn_returned)
  qed
qed

lemma memo_fn_thrown:
  assumes "call_each (cleanups (comps st m)) st = (Thrown x, st1)"
  shows "memo_fn f m st = (Thrown x, st1)"
  using assms by (simp add: memo_fn_def)

lemma memo_fn_returned:
  assumes "call_each (cleanups (comps st m)) st = (Returned u, st1)"
  shows "memo_fn f m st =
     (case f (body_start m st1) of
        (Thrown x, st4) \<Rightarrow> (Thrown x, st4\<lparr>currentEffect := currentEffect st\<rparr>)
      | (Returned newValue, st4) \<Rightarrow>
          (Returned VUndef, (memo_update m newValue st4)\<lparr>currentEffect := currentEffect st\<rparr>))"
proof -
  have "currentEffect st1 = currentEffect st"
    using currentEffect_call_each[of "cleanups (comps st m)" st] assms by simp
  then show ?thesis using assms
    by (simp add: memo_fn_def Let_def body_start_def split: prod.splits outcome.splits)
qed

lemma quiet_memo_update [simp]: "quiet S st (memo_update m v st)"
proof -
  have "quiet S st (map_comp m (\<lambda>k. k\<lparr>memo_value := v, initialized := True\<rparr>) st)"
    by (rule quiet_frame) (auto simp: sched_ok_def)
  moreover have "quiet S a (fold scheduleUpdate xs a)" for a xs
    by (rule evolves_quiet) simp
  ultimately show ?thesis unfolding memo_update_def
    by (auto intro: quiet_trans)
qed

lemma quiet_memo_fn:
  assumes f: "\<And>st'. next_comp st' = next_comp st \<Longrightarrow> quiet S st' (snd (f st'))"
  shows "quiet S st (snd (memo_fn f e st))"
proof -
  obtain r st1 where c: "call_each (cleanups (comps st e)) st = (r, st1)" by force
  have q1: "quiet S st st1"
    using evolves_quiet[OF evolves_call_each[of S st "cleanups (comps st e)"]] c by simp
  have n1: "next_comp st1 = next_comp st"
    using next_comp_call_each[of "cleanups (comps st e)" st] c by simp
  show ?thesis
  proof (cases r)
    case (Thrown x)
    then show ?thesis using c q1 by (simp add: memo_fn_thrown)
  next
    case (Returned u)
    obtain r' st4 where b: "f (body_start e st1) = (r', st4)" by force
    have "next_comp (body_start e st1) = next_comp st" by (simp add: body_start_def n1)
    from f[OF this] b have "quiet S (body_start e st1) st4" by simp
    from quiet_trans[OF quiet_trans[OF q1 quiet_body_start] this]
    have q4: "quiet S st st4" .
    show ?thesis
    proof (cases r')
      case T: (Thrown x)
      show ?thesis using c Returned b T quiet_trans[OF q4 quiet_fields(1)]
        by (simp add: memo_fn_returned)
    next
      case R: (Returned nv)
      show ?thesis using c Returned b R quiet_trans[OF quiet_trans[OF q4 quiet_memo_update] quiet_fields(1)]
        by (simp add: memo_fn_returned)
    qed
  qed
qed

lemma exec_quiet: "\<forall>c\<in>S. c < next_comp st \<Longrightarrow> quiet S st (snd (exec p st))"
  by (rule evolves_quiet) (rule exec_evolves)

text \<open>A call by the scheduler: apart from entering the function, it is quiet for every
  existing computation, the called one included.\<close>

lemma call_comp_quiet:
  assumes "\<forall>c\<in>S. c < next_comp st" "kind (comps st x) \<noteq> RootCtx"
  shows "quiet S (entered x st) (snd (call_comp x st))"
proof (cases "kind (comps st x)")
  case EffectFn
  have "quiet S (entered x st) (snd (effect_fn (exec (comp_fn (comps st x))) x (entered x st)))"
    by (rule quiet_effect_fn) (use assms(1) in \<open>auto intro: exec_quiet\<close>)
  then show ?thesis using EffectFn by (simp add: call_comp_def)
next
  case MemoFn
  have "quiet S (entered x st) (snd (memo_fn (exec (comp_fn (comps st x))) x (entered x st)))"
    by (rule quiet_memo_fn) (use assms(1) in \<open>auto intro: exec_quiet\<close>)
  then show ?thesis using MemoFn by (simp add: call_comp_def)
next
  case RootCtx
  then show ?thesis using assms by simp
qed

lemma call_comp_root: "kind (comps st x) = RootCtx \<Longrightarrow>
   call_comp x st = (Thrown (VStr ''TypeError: eff is not a function''), st)"
  by (simp add: call_comp_def)

lemma call_comp_running: "running (comps (snd (call_comp x st)) c) \<Longrightarrow> running (comps st c)"
proof (cases "kind (comps st x)")
  case EffectFn
  have "evolves {} (entered x st) (snd (effect_fn (exec (comp_fn (comps st x))) x (entered x st)))"
    by (rule evolves_effect_fn) (auto intro: exec_evolves)
  then show "running (comps (snd (call_comp x st)) c) \<Longrightarrow> running (comps st c)"
    using EffectFn by (simp add: call_comp_def evolves_def)
next
  case MemoFn
  have "evolves {} (entered x st) (snd (memo_fn (exec (comp_fn (comps st x))) x (entered x st)))"
    by (rule evolves_memo_fn) (auto intro: exec_evolves)
  then show "running (comps (snd (call_comp x st)) c) \<Longrightarrow> running (comps st c)"
    using MemoFn by (simp add: call_comp_def evolves_def)
next
  case RootCtx
  then show "running (comps (snd (call_comp x st)) c) \<Longrightarrow> running (comps st c)"
    by (simp add: call_comp_def)
qed

lemma quiet_entered: "e \<notin> S \<Longrightarrow> quiet S st (entered e st)"
  by (rule evolves_quiet) (rule evolves_entered)

lemma inv_count_entered [simp]:
  "inv_count c (entered e st) = (if c = e then Suc (inv_count c st) else inv_count c st)"
  by (simp add: inv_count_def)

lemma inv_count_frame [simp]:
  "inv_count c (map_comp e f st) = inv_count c st"
  "inv_count c (st\<lparr>effectQueue := q\<rparr>) = inv_count c st"
  "inv_count c (st\<lparr>console := l\<rparr>) = inv_count c st"
  "inv_count c (st\<lparr>isBatching := b\<rparr>) = inv_count c st"
  "inv_count c (st\<lparr>microtasks := n\<rparr>) = inv_count c st"
  by (simp_all add: inv_count_def)

text \<open>The ways one round of the flush loop can go.\<close>

lemma flush_one_disposed:
  "disposed (comps st eff) \<Longrightarrow>
   flush_one eff st = (Returned VUndef, st\<lparr>effectQueue := set_delete eff (effectQueue st)\<rparr>)"
  by (simp add: flush_one_def Let_def)

lemma flush_one_running:
  "\<not> disposed (comps st eff) \<Longrightarrow> running (comps st eff) \<Longrightarrow>
   flush_one eff st = (Returned VUndef, st\<lparr>effectQueue := set_delete eff (effectQueue st),
                                            console := console st @ [CycleDetected eff]\<rparr>)"
  by (simp add: flush_one_def Let_def)

lemma flush_one_run:
  "\<not> disposed (comps st eff) \<Longrightarrow> \<not> running (comps st eff) \<Longrightarrow>
   flush_one eff st =
     (case call_comp eff (armed eff st) of
        (Thrown x, st1) \<Rightarrow>
           if nullish x
           then (Thrown stack_error, map_comp eff (\<lambda>k. k\<lparr>running := False\<rparr>) st1)
           else (Returned VUndef,
                 map_comp eff (\<lambda>k. k\<lparr>running := False\<rparr>) (st1\<lparr>console := console st1 @ [ExecutionFailed x]\<rparr>))
      | (Returned _, st1) \<Rightarrow> (Returned VUndef, map_comp eff (\<lambda>k. k\<lparr>running := False\<rparr>) st1))"
  by (simp add: flush_one_def Let_def armed_def)

lemma flush_one_outcome:
  "fst (flush_one eff st) = Returned VUndef \<or> fst (flush_one eff st) = Thrown stack_error"
  by (simp add: flush_one_def Let_def split_beta split: outcome.splits)

lemma flush_loop_outcome:
  "fst (flush_loop q st) = Returned VUndef \<or> fst (flush_loop q st) = Thrown stack_error"
proof (induction q arbitrary: st)
  case Nil
  then show ?case by simp
next
  case (Cons x q)
  obtain r st1 where f: "flush_one x st = (r, st1)" by force
  show ?case using f flush_one_outcome[of x st] Cons[of st1] by (cases r) auto
qed

lemma armed_frame [simp]:
  "next_comp (armed e st) = next_comp st"
  "kind (comps (armed e st) c) = kind (comps st c)"
  "comp_fn (comps (armed e st) c) = comp_fn (comps st c)"
  "disposed (comps (armed e st) c) = disposed (comps st c)"
  "history (armed e st) = history st"
  "inv_count c (armed e st) = inv_count c st"
  "running (comps (armed e st) c) = (c = e \<or> running (comps st c))"
  by (simp_all add: armed_def inv_count_def)

lemma quiet_armed [simp]: "quiet S st (armed e st)"
  by (rule quiet_frame) (simp_all add: armed_def sched_ok_def)

lemma quiet_disarm [simp]: "quiet S st (map_comp e (\<lambda>k. k\<lparr>running := False\<rparr>) st)"
  by (rule quiet_frame) (simp_all add: sched_ok_def)

text \<open>From the armed state to the end of the round, apart from entering the function.\<close>

lemma flush_one_quiet_from:
  assumes "\<forall>c\<in>S. c < next_comp st" "\<not> disposed (comps st eff)" "\<not> running (comps st eff)"
  shows "quiet S (if kind (comps st eff) = RootCtx then armed eff st else entered eff (armed eff st))
                 (snd (flush_one eff st))"
proof -
  obtain r st1 where c: "call_comp eff (armed eff st) = (r, st1)" by force
  let ?a = "if kind (comps st eff) = RootCtx then armed eff st else entered eff (armed eff st)"
  have q: "quiet S ?a st1"
  proof (cases "kind (comps st eff) = RootCtx")
    case True
    then show ?thesis using c by (simp add: call_comp_root)
  next
    case False
    have "quiet S (entered eff (armed eff st)) (snd (call_comp eff (armed eff st)))"
      by (rule call_comp_quiet) (use assms(1) False in simp_all)
    then show ?thesis using c False by simp
  qed
  show ?thesis
  proof (cases r)
    case (Returned v)
    from quiet_trans[OF q quiet_disarm]
    show ?thesis using c Returned assms by (simp add: flush_one_run)
  next
    case (Thrown x)
    have a: "quiet S ?a (map_comp eff (\<lambda>k. k\<lparr>running := False\<rparr>) (st1\<lparr>console := console st1 @ [ExecutionFailed x]\<rparr>))"
      by (rule quiet_trans[OF quiet_trans[OF q quiet_fields(3)] quiet_disarm])
    have b: "quiet S ?a (map_comp eff (\<lambda>k. k\<lparr>running := False\<rparr>) st1)"
      by (rule quiet_trans[OF q quiet_disarm])
    show ?thesis
    proof (cases "nullish x")
      case True
      then show ?thesis using b c Thrown assms(2,3) by (simp add: flush_one_run)
    next
      case False
      then show ?thesis using a c Thrown assms(2,3) by (simp add: flush_one_run)
    qed
  qed
qed

lemma flush_one_quiet:
  assumes "\<forall>c\<in>S. c < next_comp st" "eff \<notin> S"
  shows "quiet S st (snd (flush_one eff st))"
proof (cases "disposed (comps st eff)")
  case True
  then show ?thesis by (simp add: flush_one_disposed)
next
  case False
  show ?thesis
  proof (cases "running (comps st eff)")
    case True
    have "quiet S st (st\<lparr>effectQueue := set_delete eff (effectQueue st),
                          console := console st @ [CycleDetected eff]\<rparr>)"
      by (rule quiet_frame) (simp_all add: sched_ok_def)
    then show ?thesis using False True by (simp add: flush_one_running)
  next
    case nr: False
    have "quiet S st (if kind (comps st eff) = RootCtx then armed eff st else entered eff (armed eff st))"
      using quiet_trans[OF quiet_armed quiet_entered[OF assms(2)]] by simp
    from quiet_trans[OF this flush_one_quiet_from[OF assms(1) False nr]] show ?thesis .
  qed
qed


lemma flush_one_running_flags: "running (comps (snd (flush_one eff st)) c) \<Longrightarrow> running (comps st c)"
proof (cases "disposed (comps st eff)")
  case True
  then show "running (comps (snd (flush_one eff st)) c) \<Longrightarrow> running (comps st c)"
    by (simp add: flush_one_disposed)
next
  case False
  show "running (comps (snd (flush_one eff st)) c) \<Longrightarrow> running (comps st c)"
  proof (cases "running (comps st eff)")
    case True
    then show "running (comps (snd (flush_one eff st)) c) \<Longrightarrow> running (comps st c)"
      using False by (simp add: flush_one_running)
  next
    case nr: False
    obtain r st1 where cc: "call_comp eff (armed eff st) = (r, st1)" by force
    have "running (comps st1 c) \<Longrightarrow> running (comps (armed eff st) c)"
      using call_comp_running[of eff "armed eff st" c] cc by simp
    then show "running (comps (snd (flush_one eff st)) c) \<Longrightarrow> running (comps st c)"
      using cc False nr by (cases r) (auto simp add: flush_one_run split: if_splits)
  qed
qed

lemma all_idle_flush_one: "all_idle st \<Longrightarrow> all_idle (snd (flush_one eff st))"
  unfolding all_idle_def using flush_one_running_flags by blast

text \<open>The loop over the snapshot of the queue, to its end or to the round that threw.\<close>

lemma flush_loop_step:
  "snd (flush_loop (x # q) st) =
     (case fst (flush_one x st) of Thrown _ \<Rightarrow> snd (flush_one x st)
      | Returned _ \<Rightarrow> snd (flush_loop q (snd (flush_one x st))))"
  "fst (flush_loop (x # q) st) =
     (case fst (flush_one x st) of Thrown y \<Rightarrow> Thrown y
      | Returned _ \<Rightarrow> fst (flush_loop q (snd (flush_one x st))))"
  by (simp_all add: split_beta split: outcome.splits)

lemma flush_loop_quiet:
  "\<forall>c\<in>S. c < next_comp st \<Longrightarrow> set q \<inter> S = {} \<Longrightarrow> quiet S st (snd (flush_loop q st))"
proof (induction q arbitrary: st)
  case Nil
  then show ?case by simp
next
  case (Cons x q)
  have q1: "quiet S st (snd (flush_one x st))"
    by (rule flush_one_quiet) (use Cons.prems in auto)
  have "quiet S (snd (flush_one x st)) (snd (flush_loop q (snd (flush_one x st))))"
    by (rule Cons.IH) (use Cons.prems quiet_next_comp[OF q1] in auto)
  from quiet_trans[OF q1 this] q1 show ?case
    by (simp add: flush_loop_step del: flush_loop.simps split: outcome.splits)
qed

lemma flush_loop_running: "running (comps (snd (flush_loop q st)) c) \<Longrightarrow> running (comps st c)"
proof (induction q arbitrary: st)
  case Nil
  then show ?case by simp
next
  case (Cons x q)
  then show ?case using flush_one_running_flags[of x st c]
    by (auto simp add: flush_loop_step simp del: flush_loop.simps split: outcome.splits)
qed

lemma flush_loop_next_comp: "next_comp st \<le> next_comp (snd (flush_loop q st))"
  using flush_loop_quiet[of "{}" st q] by (simp add: quiet_def)

lemma flush_loop_sched_ok: "sched_ok st \<Longrightarrow> sched_ok (snd (flush_loop q st))"
  using flush_loop_quiet[of "{}" st q] by (simp add: quiet_def)


lemma flush_loop_nonmember:
  assumes "c \<notin> set q" "c < next_comp st"
  shows "inv_count c (snd (flush_loop q st)) = inv_count c st"
  using quiet_inv_count[OF flush_loop_quiet[of "{c}" st q]] assms by simp

lemma flush_loop_disposed:
  assumes "disposed (comps st c)" "c < next_comp st"
  shows "inv_count c (snd (flush_loop q st)) = inv_count c st \<and> disposed (comps (snd (flush_loop q st)) c)"
  using assms
proof (induction q arbitrary: st)
  case Nil
  then show ?case by simp
next
  case (Cons x q)
  define st1 where "st1 = snd (flush_one x st)"
  have a: "inv_count c st1 = inv_count c st \<and> disposed (comps st1 c) \<and> next_comp st \<le> next_comp st1"
  proof (cases "x = c")
    case True
    then show ?thesis using Cons.prems by (simp add: st1_def flush_one_disposed inv_count_def)
  next
    case False
    have q1: "quiet {c} st st1" unfolding st1_def
      by (rule flush_one_quiet) (use Cons.prems False in auto)
    show ?thesis using quiet_inv_count[OF q1] quiet_disposed[OF q1] quiet_next_comp[OF q1] Cons.prems
      by simp
  qed
  have "inv_count c (snd (flush_loop q st1)) = inv_count c st1
      \<and> disposed (comps (snd (flush_loop q st1)) c)"
    by (rule Cons.IH) (use a Cons.prems in auto)
  then show ?case using a
    by (auto simp add: flush_loop_step st1_def[symmetric] simp del: flush_loop.simps split: outcome.splits)
qed

lemma sched_ok_run_microtask: "sched_ok st \<Longrightarrow> sched_ok (run_microtask st)"
proof (cases "microtasks st = 0")
  case True
  then show "sched_ok st \<Longrightarrow> sched_ok (run_microtask st)" by (simp add: run_microtask_eq)
next
  case False
  assume ok: "sched_ok st"
  have "sched_ok (st\<lparr>microtasks := microtasks st - 1, isBatching := False\<rparr>)"
    using ok False by (auto simp: sched_ok_def split: if_splits)
  from flush_loop_sched_ok[OF this] show "sched_ok (run_microtask st)"
    using False by (simp add: run_microtask_eq flush_def flush_callback_def Let_def)
qed

lemma sched_ok_run_script: "sched_ok st \<Longrightarrow> sched_ok (run_script p st)"
  using exec_evolves[of "{}" st p] by (simp add: evolves_def run_script_def)

lemma all_idle_run_script: "all_idle st \<Longrightarrow> all_idle (run_script p st)"
  using exec_evolves[of "{}" st p] by (auto simp add: evolves_def run_script_def all_idle_def)

lemma all_idle_run_microtask: "all_idle st \<Longrightarrow> all_idle (run_microtask st)"
  unfolding all_idle_def run_microtask_eq flush_def flush_callback_def Let_def
  using flush_loop_running by (auto split: if_splits) fastforce

subsection \<open>Subscriber sets and dependency sets\<close>

lemma subs_of_map_subs [simp]:
  "subs_of r (map_subs r' f st) = (if r = r' then f (subs_of r st) else subs_of r st)"
  by (cases r; cases r') (auto simp: subs_of_def map_subs_def)

lemma subs_of_fold_delete:
  "set (subs_of r (fold (\<lambda>d. map_subs d (set_delete e)) ds st))
     = (if r \<in> set ds then set (subs_of r st) - {e} else set (subs_of r st))"
  by (induction ds arbitrary: st) auto

lemma subs_of_map_comp:
  "memoSubscribers (f (comps st c)) = memoSubscribers (comps st c) \<Longrightarrow> subs_of r (map_comp c f st) = subs_of r st"
  by (cases r) (auto simp: subs_of_def map_comp_def)

lemma subs_of_same:
  "signals st' = signals st \<Longrightarrow> comps st' = comps st \<Longrightarrow> subs_of r st' = subs_of r st"
  by (cases r) (simp_all add: subs_of_def)

lemma subs_of_currentEffect [simp]: "subs_of r (st\<lparr>currentEffect := y\<rparr>) = subs_of r st"
  by (cases r) (auto simp: subs_of_def)

lemma subs_of_effectQueue [simp]: "subs_of r (st\<lparr>effectQueue := y\<rparr>) = subs_of r st"
  by (cases r) (auto simp: subs_of_def)

lemma subs_of_plain [simp]:
  "subs_of r (st\<lparr>out := x\<rparr>) = subs_of r st"
  "subs_of r (st\<lparr>console := l\<rparr>) = subs_of r st"
  "subs_of r (st\<lparr>history := h\<rparr>) = subs_of r st"
  "subs_of r (st\<lparr>isBatching := b\<rparr>) = subs_of r st"
  "subs_of r (st\<lparr>microtasks := n\<rparr>) = subs_of r st"
  "subs_of r (entered c st) = subs_of r st"
  "subs_of r (scheduleUpdate c st) = subs_of r st"
  "subs_of r (fold scheduleUpdate cs st) = subs_of r st"
  by (rule subs_of_same; simp add: entered_def)+

lemma subs_of_unsubscribe:
  "set (subs_of r (unsubscribe e st))
     = (if r \<in> set (dependencies (comps st e)) then set (subs_of r st) - {e} else set (subs_of r st))"
  by (simp add: unsubscribe_def subs_of_map_comp subs_of_fold_delete del: unsubscribe_nil)

lemma subs_of_track:
  "set (subs_of r (track r' st))
     = (case currentEffect st of None \<Rightarrow> set (subs_of r st)
        | Some c \<Rightarrow> if r = r' then insert c (set (subs_of r st)) else set (subs_of r st))"
  by (auto simp add: track_def subs_of_map_comp split: option.splits)

lemma dependencies_track:
  "set (dependencies (comps (track r st) c))
     = (if currentEffect st = Some c then insert r (set (dependencies (comps st c)))
        else set (dependencies (comps st c)))"
  by (cases r) (auto simp add: track_def map_comp_def map_subs_def split: option.splits)

lemma kind_track [simp]:
  "kind (comps (track r st) c) = kind (comps st c)"
  "disposed (comps (track r st) c) = disposed (comps st c)"
  by (cases r; simp add: track_def map_comp_def map_subs_def split: option.splits)+

lemma linked_init: "linked init_state"
  by (simp add: linked_def init_state_def subs_of_def blank_comp_def split: subs_ref.splits)

lemma linked_plain [simp]:
  "linked (st\<lparr>out := x\<rparr>) = linked st"
  "linked (st\<lparr>console := l\<rparr>) = linked st"
  "linked (st\<lparr>history := h\<rparr>) = linked st"
  "linked (st\<lparr>isBatching := b\<rparr>) = linked st"
  "linked (st\<lparr>microtasks := n\<rparr>) = linked st"
  "linked (entered c st) = linked st"
  by (simp_all add: linked_def entered_def)

lemma linked_track: "linked st \<Longrightarrow> linked (track r st)"
  unfolding linked_def
  by (auto simp add: subs_of_track dependencies_track split: option.splits if_splits)

lemma linked_scheduleUpdate: "linked st \<Longrightarrow> e < next_comp st \<Longrightarrow> linked (scheduleUpdate e st)"
  unfolding linked_def by auto

lemma linked_notify: "linked st \<Longrightarrow> \<forall>e\<in>set es. e < next_comp st \<Longrightarrow> linked (fold scheduleUpdate es st)"
  unfolding linked_def by auto

lemma linked_subscribers:
  "linked st \<Longrightarrow> c \<in> set (subscribers (signals st s)) \<Longrightarrow>
     c < next_comp st \<and> SignalSubs s \<in> set (dependencies (comps st c))"
  "linked st \<Longrightarrow> c \<in> set (memoSubscribers (comps st m)) \<Longrightarrow>
     c < next_comp st \<and> MemoSubs m \<in> set (dependencies (comps st c))"
  unfolding linked_def subs_of_def
  by (metis subs_ref.simps(5), metis subs_ref.simps(6))

lemma linked_set_value:
  "linked st \<Longrightarrow> linked (st\<lparr>signals := (signals st)(s := (signals st s)\<lparr>sig_value := v\<rparr>)\<rparr>)"
  unfolding linked_def subs_of_def
  by (auto split: subs_ref.splits)

lemma linked_signal_call: "linked st \<Longrightarrow> linked (snd (signal_call s a st))"
proof -
  assume l: "linked st"
  have "linked (case a of None \<Rightarrow> st
                 | Some newValue \<Rightarrow>
                     if \<not> strict_eq newValue (sig_value (signals st s))
                     then fold scheduleUpdate (subscribers (signals st s))
                            (st\<lparr>signals := (signals st)(s := (signals st s)\<lparr>sig_value := newValue\<rparr>)\<rparr>)
                     else st)"
    using l linked_subscribers(1)[OF l]
    by (auto split: option.splits intro!: linked_notify linked_set_value)
  then show ?thesis by (simp add: signal_call_def Let_def linked_track)
qed

lemma linked_onCleanup: "linked st \<Longrightarrow> linked (onCleanup f st)"
  unfolding linked_def onCleanup_def
  by (auto simp add: subs_of_map_comp split: option.splits)

lemma linked_run_cleanup: "linked st \<Longrightarrow> linked (snd (run_cleanup c st))"
  by (induction c arbitrary: st) (simp_all add: split_beta linked_signal_call)

lemma linked_call_each: "linked st \<Longrightarrow> linked (snd (call_each cs st))"
proof (induction cs arbitrary: st)
  case Nil
  then show ?case by simp
next
  case (Cons c cs)
  obtain r st' where p: "run_cleanup c st = (r, st')" by force
  have "linked st'" using linked_run_cleanup[OF Cons.prems, of c] p by simp
  then show ?case using p Cons.IH[of st'] by (cases r) simp_all
qed

lemma linked_call_each_guarded: "linked st \<Longrightarrow> linked (call_each_guarded cs st)"
proof (induction cs arbitrary: st)
  case Nil
  then show ?case by simp
next
  case (Cons c cs)
  obtain r st' where p: "run_cleanup c st = (r, st')" by force
  have "linked st'" using linked_run_cleanup[OF Cons.prems, of c] p by simp
  then show ?case using p Cons.IH by (cases r) simp_all
qed

lemma linked_unsubscribe: "linked st \<Longrightarrow> linked (unsubscribe e st)"
  unfolding linked_def
  by (auto simp add: subs_of_unsubscribe split: if_splits)

lemma all_subs_ref: "(\<forall>r. P r) \<longleftrightarrow> (\<forall>s. P (SignalSubs s)) \<and> (\<forall>m. P (MemoSubs m))"
  by (metis subs_ref.exhaust)

lemma linked_alt:
  "linked st \<longleftrightarrow>
     (\<forall>c. currentEffect st = Some c \<longrightarrow> c < next_comp st)
   \<and> (\<forall>c\<in>set (effectQueue st). c < next_comp st)
   \<and> (\<forall>s. \<forall>c\<in>set (subscribers (signals st s)).
          c < next_comp st \<and> SignalSubs s \<in> set (dependencies (comps st c)))
   \<and> (\<forall>m. \<forall>c\<in>set (memoSubscribers (comps st m)).
          c < next_comp st \<and> MemoSubs m \<in> set (dependencies (comps st c)))
   \<and> (\<forall>c. kind (comps st c) = MemoFn \<longrightarrow> \<not> disposed (comps st c))"
  unfolding linked_def all_subs_ref[of "\<lambda>r. \<forall>c\<in>set (subs_of r st). c < next_comp st \<and> r \<in> set (dependencies (comps st c))"]
  by (simp add: subs_of_def conj_assoc)

lemma linked_new_signal: "linked st \<Longrightarrow> linked (new_signal v st)"
  unfolding linked_alt new_signal_def by auto

lemma linked_new_comp: "linked st \<Longrightarrow> linked (new_comp k f st)"
  unfolding linked_alt new_comp_def
  by (auto simp: less_Suc_eq)

lemma linked_currentEffect:
  "linked st \<Longrightarrow> (\<forall>c. y = Some c \<longrightarrow> c < next_comp st) \<Longrightarrow> linked (st\<lparr>currentEffect := y\<rparr>)"
  unfolding linked_def by simp

lemma linked_dequeue: "linked st \<Longrightarrow> linked (st\<lparr>effectQueue := set_delete e (effectQueue st)\<rparr>)"
  unfolding linked_def by simp

lemma linked_map_comp:
  assumes "linked st"
    "dependencies (f (comps st c)) = dependencies (comps st c)"
    "memoSubscribers (f (comps st c)) = memoSubscribers (comps st c)"
    "kind (f (comps st c)) = kind (comps st c)"
    "kind (comps st c) = MemoFn \<longrightarrow> \<not> disposed (f (comps st c))"
  shows "linked (map_comp c f st)"
  using assms unfolding linked_def
  by (auto simp add: subs_of_map_comp)

lemma linked_memo_update: "linked st \<Longrightarrow> linked (memo_update m v st)"
proof -
  assume l: "linked st"
  have a: "linked (map_comp m (\<lambda>k. k\<lparr>memo_value := v, initialized := True\<rparr>) st)"
    by (rule linked_map_comp[OF l]) (use l in \<open>simp_all add: linked_def\<close>)
  have "\<forall>e\<in>set (memoSubscribers (comps st m)). e < next_comp st"
    using linked_subscribers(2)[OF l] by blast
  then have "linked (fold scheduleUpdate (memoSubscribers (comps st m))
                (map_comp m (\<lambda>k. k\<lparr>memo_value := v, initialized := True\<rparr>) st))"
    by (intro linked_notify a) simp
  then show ?thesis using l by (simp add: memo_update_def)
qed

lemma linked_body_start: "linked st \<Longrightarrow> e < next_comp st \<Longrightarrow> linked (body_start e st)"
  unfolding body_start_def
  by (intro linked_currentEffect linked_unsubscribe linked_map_comp) (simp_all add: linked_def)

lemma linked_memoGetter: "linked st \<Longrightarrow> linked (snd (memoGetter m st))"
  by (simp add: memoGetter_def Let_def linked_track)

lemma kind_call_each [simp]: "kind (comps (snd (call_each cs st)) c) = kind (comps st c)"
  using evolves_call_each[of "{c}" st cs] by (simp add: evolves_def)

lemma linked_effect_dispose:
  assumes "linked st" "kind (comps st e) \<noteq> MemoFn"
  shows "linked (snd (effect_dispose e st))"
proof (cases "disposed (comps st e)")
  case True
  then show ?thesis using assms by (simp add: effect_dispose_def)
next
  case False
  define st1 where "st1 = map_comp e (\<lambda>k. k\<lparr>disposed := True\<rparr>) st"
  have l1: "linked st1" unfolding st1_def
    by (rule linked_map_comp[OF assms(1)]) (use assms(2) in simp_all)
  obtain r st2 where c: "call_each (cleanups (comps st1 e)) st1 = (r, st2)" by force
  have l2: "linked st2" using linked_call_each[OF l1, of "cleanups (comps st1 e)"] c by simp
  have "linked ((unsubscribe e st2)\<lparr>effectQueue := set_delete e (effectQueue (unsubscribe e st2))\<rparr>)"
    by (intro linked_dequeue linked_unsubscribe l2)
  then show ?thesis using False c l2
    by (cases r) (simp_all add: effect_dispose_def Let_def st1_def[symmetric])
qed

lemma linked_root_dispose:
  assumes "linked st" "kind (comps st r) \<noteq> MemoFn"
  shows "linked (root_dispose r st)"
proof (cases "disposed (comps st r)")
  case True
  then show ?thesis using assms by (simp add: root_dispose_def)
next
  case False
  define st1 where "st1 = map_comp r (\<lambda>k. k\<lparr>disposed := True\<rparr>) st"
  have l1: "linked st1" unfolding st1_def
    by (rule linked_map_comp[OF assms(1)]) (use assms(2) in simp_all)
  define st2 where "st2 = call_each_guarded (cleanups (comps st1 r)) st1"
  have l2: "linked st2" unfolding st2_def by (rule linked_call_each_guarded[OF l1])
  have "linked (map_comp r (\<lambda>k. k\<lparr>cleanups := []\<rparr>) st2)"
    by (rule linked_map_comp[OF l2]) (use l2 in \<open>simp_all add: linked_def\<close>)
  then show ?thesis using False
    by (simp add: root_dispose_def Let_def st1_def[symmetric] st2_def[symmetric])
qed

lemma linked_dispose: "linked st \<Longrightarrow> linked (snd (dispose c st))"
  by (cases "kind (comps st c)") (simp_all add: dispose_def linked_effect_dispose linked_root_dispose)

lemma linked_effect_fn:
  assumes l: "linked st" and e: "e < next_comp st"
    and f: "\<And>s. linked s \<Longrightarrow> linked (snd (f s)) \<and> next_comp s \<le> next_comp (snd (f s))"
  shows "linked (snd (effect_fn f e st))"
proof -
  obtain r st1 where c: "call_each (cleanups (comps st e)) st = (r, st1)" by force
  have l1: "linked st1" using linked_call_each[OF l, of "cleanups (comps st e)"] c by simp
  have n1: "next_comp st1 = next_comp st"
    using next_comp_call_each[of "cleanups (comps st e)" st] c by simp
  show ?thesis
  proof (cases r)
    case (Thrown x)
    then show ?thesis using c l1 by (simp add: effect_fn_thrown)
  next
    case (Returned u)
    have lb: "linked (body_start e st1)" by (rule linked_body_start[OF l1]) (simp add: n1 e)
    from f[OF lb] have l4: "linked (snd (f (body_start e st1)))"
      and n4: "next_comp (body_start e st1) \<le> next_comp (snd (f (body_start e st1)))" by simp_all
    have "next_comp st \<le> next_comp (snd (f (body_start e st1)))"
      using n4 n1 by (simp add: body_start_def)
    then have "linked ((snd (f (body_start e st1)))\<lparr>currentEffect := currentEffect st\<rparr>)"
      using l by (intro linked_currentEffect l4) (auto simp: linked_def)
    then show ?thesis using c Returned by (simp add: effect_fn_returned)
  qed
qed

lemma linked_memo_fn:
  assumes l: "linked st" and e: "e < next_comp st"
    and f: "\<And>s. linked s \<Longrightarrow> linked (snd (f s)) \<and> next_comp s \<le> next_comp (snd (f s))"
  shows "linked (snd (memo_fn f e st))"
proof -
  obtain r st1 where c: "call_each (cleanups (comps st e)) st = (r, st1)" by force
  have l1: "linked st1" using linked_call_each[OF l, of "cleanups (comps st e)"] c by simp
  have n1: "next_comp st1 = next_comp st"
    using next_comp_call_each[of "cleanups (comps st e)" st] c by simp
  show ?thesis
  proof (cases r)
    case (Thrown x)
    then show ?thesis using c l1 by (simp add: memo_fn_thrown)
  next
    case (Returned u)
    obtain r' st4 where b: "f (body_start e st1) = (r', st4)" by force
    have lb: "linked (body_start e st1)" by (rule linked_body_start[OF l1]) (simp add: n1 e)
    from f[OF lb] b have l4: "linked st4" and n4: "next_comp (body_start e st1) \<le> next_comp st4"
      by simp_all
    have n: "next_comp st \<le> next_comp st4" using n4 n1 by (simp add: body_start_def)
    have a: "linked (st4\<lparr>currentEffect := currentEffect st\<rparr>)"
      using l n by (intro linked_currentEffect l4) (auto simp: linked_def)
    have "next_comp (memo_update e v st4) = next_comp st4" for v
      by (simp add: memo_update_def)
    then have b': "linked ((memo_update e v st4)\<lparr>currentEffect := currentEffect st\<rparr>)" for v
      using l n by (intro linked_currentEffect linked_memo_update l4) (auto simp: linked_def)
    show ?thesis using c Returned b a b' by (cases r') (simp_all add: memo_fn_returned)
  qed
qed

lemma exec_next_comp: "next_comp st \<le> next_comp (snd (exec p st))"
  using exec_evolves[of "{}" st p] by (simp add: evolves_def)

text \<open>No caller code breaks the links.\<close>

lemma linked_exec: "linked st \<Longrightarrow> linked (snd (exec p st))"
proof (induction p arbitrary: st)
  case (CreateSignal v k)
  then show ?case by (simp add: linked_new_signal)
next
  case (SigGet s k)
  then show ?case by (simp add: split_beta linked_signal_call)
next
  case (SigSet s v k)
  then show ?case by (simp add: split_beta linked_signal_call)
next
  case (OnCleanup f k)
  then show ?case by (simp add: linked_onCleanup)
next
  case (CreateEffect fn k)
  define st0 where "st0 = entered (next_comp st) (new_comp EffectFn fn st)"
  have l0: "linked st0" using CreateEffect.prems by (simp add: st0_def linked_new_comp)
  obtain r st2 where c: "effect_fn (exec fn) (next_comp st) st0 = (r, st2)" by force
  have "linked (snd (effect_fn (exec fn) (next_comp st) st0))"
    by (rule linked_effect_fn[OF l0]) (simp_all add: st0_def CreateEffect.IH(1) exec_next_comp)
  then have l2: "linked st2" using c by simp
  show ?case using c l2 CreateEffect.IH(2)[OF _ l2] by (cases r) (simp_all add: st0_def[symmetric])
next
  case (CreateMemo fn k)
  define st0 where "st0 = entered (next_comp st) (new_comp MemoFn fn st)"
  have l0: "linked st0" using CreateMemo.prems by (simp add: st0_def linked_new_comp)
  obtain r st2 where c: "memo_fn (exec fn) (next_comp st) st0 = (r, st2)" by force
  have "linked (snd (memo_fn (exec fn) (next_comp st) st0))"
    by (rule linked_memo_fn[OF l0]) (simp_all add: st0_def CreateMemo.IH(1) exec_next_comp)
  then have l2: "linked st2" using c by simp
  show ?case using c l2 CreateMemo.IH(2)[OF _ l2] by (cases r) (simp_all add: st0_def[symmetric])
next
  case (MemoGet m k)
  then show ?case by (simp add: split_beta linked_memoGetter)
next
  case (CreateRoot fn k)
  define e where "e = next_comp st"
  define st1 where "st1 = new_comp RootCtx (Return VUndef) st"
  have l1: "linked (st1\<lparr>currentEffect := Some e\<rparr>)"
    unfolding st1_def e_def by (intro linked_currentEffect linked_new_comp CreateRoot.prems) simp
  obtain r st2 where c: "exec (fn e) (st1\<lparr>currentEffect := Some e\<rparr>) = (r, st2)" by force
  have l2: "linked st2" using CreateRoot.IH(1)[OF _ l1, of "fn e"] c by simp
  have n2: "next_comp st \<le> next_comp st2"
    using exec_next_comp[of "st1\<lparr>currentEffect := Some e\<rparr>" "fn e"] c by (simp add: st1_def)
  have p: "\<forall>c. currentEffect st1 = Some c \<longrightarrow> c < next_comp st2"
    using CreateRoot.prems n2 by (auto simp: st1_def new_comp_def linked_def)
  have l3: "linked (st2\<lparr>currentEffect := currentEffect st1\<rparr>)"
    using p by (intro linked_currentEffect l2) simp
  have l3': "linked (st2\<lparr>console := l, currentEffect := currentEffect st1\<rparr>)" for l
    using p by (intro linked_currentEffect) (simp_all add: l2)
  show ?case using c l3 l3' CreateRoot.IH(2)
    by (cases r) (simp_all add: e_def[symmetric] st1_def[symmetric] Let_def)
next
  case (Dispose c p)
  obtain r st' where d: "dispose c st = (r, st')" by force
  have "linked st'" using linked_dispose[OF Dispose.prems, of c] d by simp
  then show ?case using d Dispose.IH by (cases r) simp_all
qed simp_all

lemma linked_run_script: "linked st \<Longrightarrow> linked (run_script p st)"
  by (simp add: run_script_def linked_exec)

lemma linked_call_comp: "linked st \<Longrightarrow> c < next_comp st \<Longrightarrow> linked (snd (call_comp c st))"
  by (cases "kind (comps st c)")
     (simp_all add: call_comp_def linked_effect_fn linked_memo_fn linked_exec exec_next_comp)

lemma linked_armed: "linked st \<Longrightarrow> linked (armed e st)"
  unfolding armed_def
  by (rule linked_map_comp) (simp_all add: linked_dequeue, simp add: linked_def)

lemma linked_disarm: "linked st \<Longrightarrow> linked (map_comp e (\<lambda>k. k\<lparr>running := False\<rparr>) st)"
  by (rule linked_map_comp) (simp_all add: linked_def)

lemma linked_flush_one: "linked st \<Longrightarrow> c < next_comp st \<Longrightarrow> linked (snd (flush_one c st))"
proof -
  assume l: "linked st" and c: "c < next_comp st"
  show ?thesis
  proof (cases "disposed (comps st c) \<or> running (comps st c)")
    case True
    then show ?thesis using l by (auto simp add: flush_one_def Let_def linked_dequeue)
  next
    case False
    obtain r st1 where cc: "call_comp c (armed c st) = (r, st1)" by force
    have "linked (snd (call_comp c (armed c st)))"
      by (rule linked_call_comp[OF linked_armed[OF l]]) (simp add: c)
    then have l1: "linked st1" using cc by simp
    show ?thesis using False cc linked_disarm[OF l1] linked_disarm[of "st1\<lparr>console := l\<rparr>" for l] l1
      by (cases r) (simp_all add: flush_one_run)
  qed
qed

lemma linked_flush_loop:
  "linked st \<Longrightarrow> \<forall>c\<in>set q. c < next_comp st \<Longrightarrow> linked (snd (flush_loop q st))"
proof (induction q arbitrary: st)
  case Nil
  then show ?case by simp
next
  case (Cons x q)
  obtain r st1 where f: "flush_one x st = (r, st1)" by force
  have l1: "linked st1" using linked_flush_one[OF Cons.prems(1), of x] Cons.prems(2) f by simp
  have "next_comp st \<le> next_comp st1"
    using flush_one_quiet[of "{}" st x] f by (simp add: quiet_def)
  then have "linked (snd (flush_loop q st1))"
    using Cons.prems(2) by (intro Cons.IH l1) auto
  then show ?case using f l1 by (cases r) simp_all
qed

lemma linked_run_microtask: "linked st \<Longrightarrow> linked (run_microtask st)"
proof -
  assume l: "linked st"
  have "linked (snd (flush_loop (effectQueue st) (st\<lparr>microtasks := microtasks st - 1, isBatching := False\<rparr>)))"
    by (rule linked_flush_loop) (use l in \<open>simp_all add: linked_def\<close>)
  then show ?thesis using l by (simp add: run_microtask_eq flush_def flush_callback_def Let_def)
qed

lemma reachable_linked: "reachable st \<Longrightarrow> linked st \<and> currentEffect st = None"
proof (induction rule: reachable.induct)
  case reachable_init
  then show ?case by (simp add: linked_init) (simp add: init_state_def)
next
  case (reachable_script st p)
  then have "linked (run_script p st)" by (simp add: linked_run_script)
  moreover have "currentEffect (run_script p st) = None"
    using reachable_script.IH by (simp add: run_script_def)
  ultimately show ?case by simp
next
  case (reachable_microtask st)
  then show ?case by (simp add: linked_run_microtask)
qed

subsection \<open>Evaluating concrete scenarios\<close>

text \<open>The definitions to unfold when a concrete scenario is evaluated.\<close>

lemmas engine_defs =
  run_script_def run_microtask_def microtask_turn_def flush_def flush_callback_def flush_one_def
  call_comp_def effect_fn_def memo_fn_def
  memo_update_def memoGetter_def effect_dispose_def root_dispose_def dispose_def onCleanup_def
  signal_call_def track_def scheduleUpdate_def unsubscribe_def new_signal_def new_comp_def entered_def
  map_comp_def map_subs_def subs_of_def set_add_def set_delete_def strict_eq_def body_start_def armed_def
  nullish_def init_state_def blank_comp_def Let_def

subsection \<open>Deduplication and the single pending flush\<close>

lemma reachable_sched_ok: "reachable st \<Longrightarrow> sched_ok st \<and> all_idle st"
proof (induction rule: reachable.induct)
  case reachable_init
  then show ?case by (simp add: sched_ok_def all_idle_def init_state_def blank_comp_def)
next
  case (reachable_script st p)
  then show ?case by (simp add: sched_ok_run_script all_idle_run_script)
next
  case (reachable_microtask st)
  then show ?case by (simp add: sched_ok_run_microtask all_idle_run_microtask)
qed









lemma run_script_quiet: "\<forall>c\<in>S. c < next_comp st \<Longrightarrow> quiet S st (run_script p st)"
  unfolding run_script_def by (rule exec_quiet)

lemma run_script_running: "running (comps (run_script p st) c) \<Longrightarrow> running (comps st c)"
  using exec_evolves[of "{}" st p] by (simp add: evolves_def run_script_def)







subsection \<open>Errors thrown by computation functions\<close>

text \<open>The edges a computation has after its function ran: those recorded during the run.\<close>

lemma body_dependencies:
  assumes "e < next_comp st1" "exec p (body_start e st1) = (r, st4)" "\<not> disposed (comps st4 e)"
  shows "\<exists>h. history st4 = history st1 @ h \<and> set (dependencies (comps st4 e)) = {r. Edge e r \<in> set h}"
proof -
  have "evolves {e} (body_start e st1) (snd (exec p (body_start e st1)))"
    by (rule exec_evolves) (use assms(1) in \<open>simp add: body_start_def\<close>)
  then have "evolves {e} (body_start e st1) st4" using assms(2) by simp
  then obtain h where h: "history st4 = history (body_start e st1) @ h"
     "\<not> disposed (comps st4 e) \<longrightarrow>
        set (dependencies (comps st4 e)) = set (dependencies (comps (body_start e st1) e)) \<union> {r. Edge e r \<in> set h}"
    unfolding evolves_def by auto
  have "history (body_start e st1) = history st1" "dependencies (comps (body_start e st1) e) = []"
    by (simp_all add: body_start_def)
  then show ?thesis using h assms(3) by auto
qed






subsection \<open>Teardown before a run\<close>

lemma call_each_emitters: "call_each (map emitter vs) st = (Returned VUndef, st\<lparr>out := out st @ vs\<rparr>)"
  by (induction vs arbitrary: st) (simp_all add: emitter_def)

lemma unsubscribe_removes:
  "r \<in> set (dependencies (comps st e)) \<Longrightarrow> e \<notin> set (subs_of r (unsubscribe e st))"
  by (simp add: unsubscribe_def subs_of_map_comp subs_of_fold_delete del: unsubscribe_nil)

lemma body_start_clean:
  "cleanups (comps (body_start e st1) e) = []"
  "dependencies (comps (body_start e st1) e) = []"
  "out (body_start e st1) = out st1"
  "currentEffect (body_start e st1) = Some e"
  by (simp_all add: body_start_def)

lemma body_start_unsubscribed:
  "r \<in> set (dependencies (comps st1 e)) \<Longrightarrow> e \<notin> set (subs_of r (body_start e st1))"
  using unsubscribe_removes[of r "map_comp e (\<lambda>k. k\<lparr>cleanups := []\<rparr>) st1" e]
  by (simp add: body_start_def)

subsection \<open>Cleanups that throw\<close>

text \<open>
  C5. An effect reports the signal it reads and registers two cleanups, the first of
  which throws. The re-run that the write \<open>s(1)\<close> causes calls the first cleanup and ends
  there: the second cleanup is not called, the cleanup list is not cleared, the edge of
  the first run is still there on both sides, and the body is not executed; the
  scheduler logs the error. The next write gives the same: the effect never runs its
  body again.
\<close>

theorem rerun_stops_at_failing_cleanup:
  "out (run_script stuck_effect init_state) = [VNum 0]
 \<and> effectQueue (run_script stuck_effect init_state) = [0]
 \<and> microtasks (run_script stuck_effect init_state) = 1
 \<and> inv_count 0 stuck_once = 2
 \<and> out stuck_once = [VNum 0]
 \<and> cleanups (comps stuck_once 0)
      = [CThrow (VStr ''cleanup failed''), emitter (VStr ''second cleanup'')]
 \<and> dependencies (comps stuck_once 0) = [SignalSubs 0]
 \<and> subscribers (signals stuck_once 0) = [0]
 \<and> console stuck_once = [ExecutionFailed (VStr ''cleanup failed'')]
 \<and> sig_value (signals stuck_twice 0) = VNum 2
 \<and> inv_count 0 stuck_twice = 3
 \<and> out stuck_twice = [VNum 0]
 \<and> cleanups (comps stuck_twice 0)
      = [CThrow (VStr ''cleanup failed''), emitter (VStr ''second cleanup'')]
 \<and> console stuck_twice
      = [ExecutionFailed (VStr ''cleanup failed''), ExecutionFailed (VStr ''cleanup failed'')]"
  by (simp add: stuck_twice_def stuck_once_def stuck_effect_def emitter_def writes_def engine_defs
        inv_count_def)

text \<open>
  C6. An effect reads a signal and registers two cleanups, the first of which throws;
  the signal is written and the disposer called. The disposer marks the effect disposed
  and ends with the error of the first cleanup: the second cleanup is not called, the
  dependency edge is still there on both sides, and the effect is still in the
  scheduler's queue. A second call of the disposer returns at once and repairs
  nothing; the flush skips the effect. The disposer of a root with the same two
  cleanups calls both, logs the error and clears the list.
\<close>

theorem disposer_stops_at_failing_cleanup:
  "fst (exec leaky_dispose init_state) = Thrown (VStr ''cleanup failed'')
 \<and> out (run_script leaky_dispose init_state) = []
 \<and> disposed (comps (run_script leaky_dispose init_state) 0)
 \<and> dependencies (comps (run_script leaky_dispose init_state) 0) = [SignalSubs 0]
 \<and> subscribers (signals (run_script leaky_dispose init_state) 0) = [0]
 \<and> effectQueue (run_script leaky_dispose init_state) = [0]
 \<and> out leaky_again = [VStr ''disposed again'']
 \<and> dependencies (comps leaky_again 0) = [SignalSubs 0]
 \<and> subscribers (signals leaky_again 0) = [0]
 \<and> cleanups (comps leaky_again 0)
      = [CThrow (VStr ''cleanup failed''), emitter (VStr ''second cleanup'')]
 \<and> inv_count 0 leaky_again = 1
 \<and> console leaky_again = []
 \<and> fst (exec guarded_root init_state) = Returned VUndef
 \<and> out (run_script guarded_root init_state) = [VStr ''second cleanup'', VStr ''disposed'']
 \<and> console (run_script guarded_root init_state) = [RootCleanupFailed (VStr ''cleanup failed'')]
 \<and> cleanups (comps (run_script guarded_root init_state) 0) = []"
  by (simp add: leaky_again_def leaky_dispose_def guarded_root_def emitter_def engine_defs inv_count_def)

subsection \<open>Memos\<close>

lemma track_memo_value [simp]: "memo_value (comps (track r st) m) = memo_value (comps st m)"
  by (cases r; cases "currentEffect st") (simp_all add: track_def map_comp_def map_subs_def)

lemma memoGetter_eq: "memoGetter m st = (memo_value (comps st m), track (MemoSubs m) st)"
  by (simp add: memoGetter_def Let_def)

lemma signal_read_eq: "signal_call s None st = (sig_value (signals st s), track (SignalSubs s) st)"
  by (simp add: signal_call_def Let_def)

lemma track_edge:
  "currentEffect st = Some c \<Longrightarrow>
     c \<in> set (subs_of r (track r st)) \<and> r \<in> set (dependencies (comps (track r st) c))"
  by (cases r) (auto simp: track_def map_comp_def map_subs_def subs_of_def)

lemma memo_created_once:
  "inv_count (next_comp st) (snd (exec (CreateMemo fn k) st)) = Suc (inv_count (next_comp st) st)"
proof -
  define m where "m = next_comp st"
  define st1 where "st1 = entered m (new_comp MemoFn fn st)"
  obtain r st2 where c: "memo_fn (exec fn) m st1 = (r, st2)" by force
  have "quiet {m} st1 (snd (memo_fn (exec fn) m st1))"
    by (rule quiet_memo_fn) (auto intro: exec_quiet simp: st1_def m_def)
  then have q: "quiet {m} st1 st2" using c by simp
  have i1: "inv_count m st1 = Suc (inv_count m st)" by (simp add: st1_def new_comp_def inv_count_def)
  have i2: "inv_count m st2 = inv_count m st1" using quiet_inv_count[OF q] by simp
  show ?thesis
  proof (cases r)
    case (Thrown x)
    then show ?thesis using c i1 i2 by (simp add: m_def[symmetric] st1_def[symmetric])
  next
    case (Returned v)
    have "m < next_comp st2" using quiet_next_comp[OF q] by (simp add: st1_def m_def)
    then have "quiet {m} st2 (snd (exec (k m) st2))" by (intro exec_quiet) simp
    from quiet_inv_count[OF this] show ?thesis using c i1 i2 Returned
      by (simp add: m_def[symmetric] st1_def[symmetric])
  qed
qed

lemma microtask_nonmember:
  assumes "m < next_comp st" "m \<notin> set (effectQueue st)"
  shows "inv_count m (run_microtask st) = inv_count m st"
proof (cases "microtasks st = 0")
  case True
  then show ?thesis by (simp add: run_microtask_eq)
next
  case False
  define s where "s = st\<lparr>microtasks := microtasks st - 1, isBatching := False\<rparr>"
  have "inv_count m (snd (flush_loop (effectQueue st) s)) = inv_count m s"
    by (rule flush_loop_nonmember) (use assms in \<open>simp_all add: s_def\<close>)
  then show ?thesis using False
    by (simp add: run_microtask_eq flush_def flush_callback_def Let_def s_def inv_count_def)
qed

lemma signal_call_enqueues_on_change:
  assumes "c \<in> set (effectQueue (snd (signal_call s a st)))" "c \<notin> set (effectQueue st)"
  shows "c \<in> set (subscribers (signals st s)) \<and> (\<exists>v. a = Some v \<and> \<not> strict_eq v (sig_value (signals st s)))"
  using assms by (auto simp add: signal_call_def Let_def split: option.splits if_splits)

lemma memo_update_same:
  "initialized (comps st m) \<Longrightarrow> strict_eq v (memo_value (comps st m)) \<Longrightarrow> memo_update m v st = st"
  by (simp add: memo_update_def)

lemma memo_update_changed:
  assumes "\<not> initialized (comps st m) \<or> \<not> strict_eq v (memo_value (comps st m))"
  shows "memo_value (comps (memo_update m v st) m) = v"
    "initialized (comps (memo_update m v st) m)"
    "effectQueue (memo_update m v st) = fold set_add (memoSubscribers (comps st m)) (effectQueue st)"
    "set (memoSubscribers (comps st m)) \<subseteq> set (effectQueue (memo_update m v st))"
  using assms by (auto simp add: memo_update_def)

lemma memo_update_enqueues_on_change:
  assumes "c \<in> set (effectQueue (memo_update m v st))" "c \<notin> set (effectQueue st)"
  shows "c \<in> set (memoSubscribers (comps st m))
       \<and> (\<not> initialized (comps st m) \<or> \<not> strict_eq v (memo_value (comps st m)))"
  using assms by (auto simp add: memo_update_def split: if_splits)

lemma memo_update_edges:
  "dependencies (comps (memo_update m v st) c) = dependencies (comps st c)"
  "subs_of r (memo_update m v st) = subs_of r st"
  by (simp_all add: memo_update_def subs_of_map_comp)

lemma linked_edge: "linked st \<Longrightarrow> c \<in> set (subs_of r st) \<Longrightarrow> r \<in> set (dependencies (comps st c))"
  by (simp add: linked_def)

lemma body_start_unsubscribed_all:
  assumes "linked st1"
  shows "e \<notin> set (subs_of r (body_start e st1))"
proof (cases "r \<in> set (dependencies (comps st1 e))")
  case True
  then show ?thesis by (rule body_start_unsubscribed)
next
  case False
  then have "e \<notin> set (subs_of r st1)" using linked_edge[OF assms, of e r] by blast
  then show ?thesis using False
    by (simp add: body_start_def subs_of_unsubscribe subs_of_map_comp)
qed

text \<open>A run of a memo whose cleanups returned.\<close>

lemma memo_run_edges:
  assumes l: "linked st" and m: "m < next_comp st" and k: "kind (comps st m) = MemoFn"
    and c: "call_each (cleanups (comps st m)) st = (Returned u, st1)"
    and b: "exec p (body_start m st1) = (r, st4)"
  shows "linked st4"
    and "\<exists>h. history st4 = history st1 @ h \<and> set (dependencies (comps st4 m)) = {r. Edge m r \<in> set h}"
proof -
  have l1: "linked st1" using linked_call_each[OF l, of "cleanups (comps st m)"] c by simp
  have n1: "next_comp st1 = next_comp st"
    using next_comp_call_each[of "cleanups (comps st m)" st] c by simp
  have k1: "kind (comps st1 m) = MemoFn"
    using kind_call_each[of "cleanups (comps st m)" st m] c k by simp
  have lb: "linked (body_start m st1)" by (rule linked_body_start[OF l1]) (simp add: n1 m)
  show l4: "linked st4" using linked_exec[OF lb, of p] b by simp
  have "evolves {m} (body_start m st1) (snd (exec p (body_start m st1)))"
    by (rule exec_evolves) (simp add: body_start_def n1 m)
  then have "kind (comps st4 m) = kind (comps (body_start m st1) m)"
    using b by (simp add: evolves_def)
  then have "kind (comps st4 m) = MemoFn" using k1 by (simp add: body_start_def)
  then have "\<not> disposed (comps st4 m)" using l4 by (simp add: linked_def)
  from body_dependencies[OF _ b this]
  show "\<exists>h. history st4 = history st1 @ h \<and> set (dependencies (comps st4 m)) = {r. Edge m r \<in> set h}"
    by (simp add: n1 m)
qed

text \<open>\<open>createMemo\<close> runs the body once, from a state in which the new memo has no
  dependency, no cleanup and no cached value, and caches what the body returns.\<close>

lemma memo_created_eagerly:
  assumes b: "exec fn (body_start (next_comp st) (entered (next_comp st) (new_comp MemoFn fn st)))
                = (Returned v, st4)"
  shows "exec (CreateMemo fn k) st
       = exec (k (next_comp st)) ((memo_update (next_comp st) v st4)\<lparr>currentEffect := currentEffect st\<rparr>)"
    and "memo_value (comps (memo_update (next_comp st) v st4) (next_comp st)) = v"
    and "initialized (comps (memo_update (next_comp st) v st4) (next_comp st))"
proof -
  define m where "m = next_comp st"
  define st0 where "st0 = entered m (new_comp MemoFn fn st)"
  have c: "call_each (cleanups (comps st0 m)) st0 = (Returned VUndef, st0)"
    by (simp add: st0_def m_def entered_def new_comp_def)
  have b': "exec fn (body_start m st0) = (Returned v, st4)" using b by (simp add: m_def st0_def)
  have ce: "currentEffect st0 = currentEffect st" by (simp add: st0_def entered_def new_comp_def)
  have "memo_fn (exec fn) m st0 = (Returned VUndef, (memo_update m v st4)\<lparr>currentEffect := currentEffect st\<rparr>)"
    using memo_fn_returned[OF c, of "exec fn"] b' ce by simp
  then show "exec (CreateMemo fn k) st
       = exec (k (next_comp st)) ((memo_update (next_comp st) v st4)\<lparr>currentEffect := currentEffect st\<rparr>)"
    by (simp add: m_def[symmetric] st0_def[symmetric])
  have "evolves {m} (body_start m st0) (snd (exec fn (body_start m st0)))"
    by (rule exec_evolves) (simp add: body_start_def st0_def m_def entered_def)
  then have "initialized (comps st4 m) = initialized (comps (body_start m st0) m)"
    using b' by (simp add: evolves_def)
  then have "\<not> initialized (comps st4 m)"
    by (simp add: body_start_def st0_def m_def entered_def new_comp_def map_comp_def)
  then show "memo_value (comps (memo_update (next_comp st) v st4) (next_comp st)) = v"
    and "initialized (comps (memo_update (next_comp st) v st4) (next_comp st))"
    using memo_update_changed(1,2)[of st4 m v] by (simp_all add: m_def)
qed

lemma call_comp_memo:
  "kind (comps st m) = MemoFn \<Longrightarrow> call_comp m st = memo_fn (exec (comp_fn (comps st m))) m (entered m st)"
  by (simp add: call_comp_def)

text \<open>
  C7. A memo's function is entered exactly once by \<open>createMemo\<close>; afterwards no caller
  code enters it, and a flush enters it only when it is in the queue. The store stays
  linked in every reachable state and through all caller code, so a write puts a
  computation in the queue only when the written signal is in the computation's
  dependency set and the value changed, and a memo puts a computation in the queue only
  when the memo is in that computation's dependency set and its value changed. A run
  of a memo whose cleanups returned starts with an empty dependency set and the memo in
  no subscriber set; after the function ran, the dependency set holds exactly the edges
  recorded during this run, and the memo is in no subscriber set beyond them. When the
  function returns, the cache and the memo's subscribers are touched only if there is no
  cached value yet or the new value is not strictly equal to it: then the value is
  stored and every subscriber of the memo enqueued, otherwise nothing changes; no edge
  changes either way. The getter returns the cached value and runs the same tracking
  block as a signal read: with an ambient computation the edge is recorded on both
  sides, without one the state is unchanged. The one entry by \<open>createMemo\<close> is one run of
  the body: when the body returns, its value is cached and \<open>createMemo\<close> goes on from
  there; and a call of a memo by the scheduler is a call of that same closure with the
  function the memo was created with.
\<close>

theorem memo_semantics:
  "inv_count (next_comp st) (snd (exec (CreateMemo fn k) st)) = Suc (inv_count (next_comp st) st)
 \<and> (m < next_comp st \<longrightarrow> inv_count m (run_script p st) = inv_count m st)
 \<and> (m < next_comp st \<and> m \<notin> set (effectQueue st) \<longrightarrow> inv_count m (run_microtask st) = inv_count m st)
 \<and> (reachable st \<longrightarrow> linked st)
 \<and> (linked st \<longrightarrow> linked (snd (exec p st)))
 \<and> (linked st \<and> m \<in> set (effectQueue (snd (signal_call s a st))) \<and> m \<notin> set (effectQueue st) \<longrightarrow>
       m \<in> set (subscribers (signals st s))
     \<and> SignalSubs s \<in> set (dependencies (comps st m))
     \<and> (\<exists>w. a = Some w \<and> \<not> strict_eq w (sig_value (signals st s))))
 \<and> (linked st \<and> c \<in> set (effectQueue (memo_update m v st)) \<and> c \<notin> set (effectQueue st) \<longrightarrow>
       c \<in> set (memoSubscribers (comps st m))
     \<and> MemoSubs m \<in> set (dependencies (comps st c))
     \<and> (\<not> initialized (comps st m) \<or> \<not> strict_eq v (memo_value (comps st m))))
 \<and> (linked st \<and> m < next_comp st \<and> kind (comps st m) = MemoFn
      \<and> call_each (cleanups (comps st m)) st = (Returned u, st1)
      \<and> exec p (body_start m st1) = (r, st4) \<longrightarrow>
       dependencies (comps (body_start m st1) m) = []
     \<and> (\<forall>d. m \<notin> set (subs_of d (body_start m st1)))
     \<and> (\<exists>h. history st4 = history st1 @ h
            \<and> set (dependencies (comps st4 m)) = {d. Edge m d \<in> set h})
     \<and> (\<forall>d. m \<in> set (subs_of d st4) \<longrightarrow> d \<in> set (dependencies (comps st4 m))))
 \<and> (call_each (cleanups (comps st m)) st = (Returned u, st1)
      \<and> exec p (body_start m st1) = (Returned v, st4) \<longrightarrow>
       memo_fn (exec p) m st = (Returned VUndef, (memo_update m v st4)\<lparr>currentEffect := currentEffect st\<rparr>))
 \<and> (initialized (comps st m) \<and> strict_eq v (memo_value (comps st m)) \<longrightarrow> memo_update m v st = st)
 \<and> (\<not> (initialized (comps st m) \<and> strict_eq v (memo_value (comps st m))) \<longrightarrow>
       memo_value (comps (memo_update m v st) m) = v
     \<and> initialized (comps (memo_update m v st) m)
     \<and> set (memoSubscribers (comps st m)) \<subseteq> set (effectQueue (memo_update m v st)))
 \<and> dependencies (comps (memo_update m v st) c) = dependencies (comps st c)
 \<and> subs_of d (memo_update m v st) = subs_of d st
 \<and> memoGetter m st = (memo_value (comps st m), track (MemoSubs m) st)
 \<and> signal_call s None st = (sig_value (signals st s), track (SignalSubs s) st)
 \<and> (currentEffect st = Some c \<longrightarrow>
       c \<in> set (memoSubscribers (comps (snd (memoGetter m st)) m))
     \<and> MemoSubs m \<in> set (dependencies (comps (snd (memoGetter m st)) c)))
 \<and> (currentEffect st = None \<longrightarrow> snd (memoGetter m st) = st)
 \<and> (exec fn (body_start (next_comp st) (entered (next_comp st) (new_comp MemoFn fn st)))
       = (Returned v, st4) \<longrightarrow>
       exec (CreateMemo fn k) st
         = exec (k (next_comp st)) ((memo_update (next_comp st) v st4)\<lparr>currentEffect := currentEffect st\<rparr>)
     \<and> memo_value (comps (memo_update (next_comp st) v st4) (next_comp st)) = v
     \<and> initialized (comps (memo_update (next_comp st) v st4) (next_comp st)))
 \<and> (kind (comps st m) = MemoFn \<longrightarrow>
       call_comp m st = memo_fn (exec (comp_fn (comps st m))) m (entered m st))"
proof (intro conjI impI allI)
  show "inv_count (next_comp st) (snd (exec (CreateMemo fn k) st)) = Suc (inv_count (next_comp st) st)"
    by (rule memo_created_once)
next
  assume "m < next_comp st"
  then show "inv_count m (run_script p st) = inv_count m st"
    using quiet_inv_count[OF run_script_quiet[of "{m}" st p]] by simp
next
  assume "m < next_comp st \<and> m \<notin> set (effectQueue st)"
  then show "inv_count m (run_microtask st) = inv_count m st" by (simp add: microtask_nonmember)
next
  assume "reachable st"
  then show "linked st" by (simp add: reachable_linked)
next
  assume "linked st"
  then show "linked (snd (exec p st))" by (rule linked_exec)
next
  assume a: "linked st \<and> m \<in> set (effectQueue (snd (signal_call s a st))) \<and> m \<notin> set (effectQueue st)"
  then show ms: "m \<in> set (subscribers (signals st s))"
    and "\<exists>w. a = Some w \<and> \<not> strict_eq w (sig_value (signals st s))"
    using signal_call_enqueues_on_change[of m s a st] by simp_all
  show "SignalSubs s \<in> set (dependencies (comps st m))"
    using a ms linked_subscribers(1)[of st m s] by simp
next
  assume a: "linked st \<and> c \<in> set (effectQueue (memo_update m v st)) \<and> c \<notin> set (effectQueue st)"
  then show cs: "c \<in> set (memoSubscribers (comps st m))"
    and "\<not> initialized (comps st m) \<or> \<not> strict_eq v (memo_value (comps st m))"
    using memo_update_enqueues_on_change[of c m v st] by simp_all
  show "MemoSubs m \<in> set (dependencies (comps st c))"
    using a cs linked_subscribers(2)[of st c m] by simp
next
  assume a: "linked st \<and> m < next_comp st \<and> kind (comps st m) = MemoFn
      \<and> call_each (cleanups (comps st m)) st = (Returned u, st1)
      \<and> exec p (body_start m st1) = (r, st4)"
  show "dependencies (comps (body_start m st1) m) = []" by (rule body_start_clean)
  have l1: "linked st1" using linked_call_each[of st "cleanups (comps st m)"] a by simp
  show "m \<notin> set (subs_of d (body_start m st1))" for d
    by (rule body_start_unsubscribed_all[OF l1])
  from a have l: "linked st" and m: "m < next_comp st" and k: "kind (comps st m) = MemoFn"
    and c: "call_each (cleanups (comps st m)) st = (Returned u, st1)"
    and b: "exec p (body_start m st1) = (r, st4)" by simp_all
  show "\<exists>h. history st4 = history st1 @ h \<and> set (dependencies (comps st4 m)) = {d. Edge m d \<in> set h}"
    by (rule memo_run_edges(2)[OF l m k c b])
  have l4: "linked st4" by (rule memo_run_edges(1)[OF l m k c b])
  show "d \<in> set (dependencies (comps st4 m))" if "m \<in> set (subs_of d st4)" for d
    using linked_edge[OF l4 that] .
next
  assume "call_each (cleanups (comps st m)) st = (Returned u, st1)
      \<and> exec p (body_start m st1) = (Returned v, st4)"
  then show "memo_fn (exec p) m st = (Returned VUndef, (memo_update m v st4)\<lparr>currentEffect := currentEffect st\<rparr>)"
    by (simp add: memo_fn_returned)
next
  assume "initialized (comps st m) \<and> strict_eq v (memo_value (comps st m))"
  then show "memo_update m v st = st" by (simp add: memo_update_same)
next
  assume a: "\<not> (initialized (comps st m) \<and> strict_eq v (memo_value (comps st m)))"
  then show "memo_value (comps (memo_update m v st) m) = v"
     "initialized (comps (memo_update m v st) m)"
     "set (memoSubscribers (comps st m)) \<subseteq> set (effectQueue (memo_update m v st))"
    using memo_update_changed[of st m v] by simp_all
next
  show "dependencies (comps (memo_update m v st) c) = dependencies (comps st c)"
    "subs_of d (memo_update m v st) = subs_of d st"
    by (rule memo_update_edges)+
  show "memoGetter m st = (memo_value (comps st m), track (MemoSubs m) st)" by (rule memoGetter_eq)
  show "signal_call s None st = (sig_value (signals st s), track (SignalSubs s) st)" by (rule signal_read_eq)
next
  assume "currentEffect st = Some c"
  from track_edge[OF this, of "MemoSubs m"]
  show "c \<in> set (memoSubscribers (comps (snd (memoGetter m st)) m))"
       "MemoSubs m \<in> set (dependencies (comps (snd (memoGetter m st)) c))"
    by (simp_all add: memoGetter_eq subs_of_def)
next
  assume "currentEffect st = None"
  then show "snd (memoGetter m st) = st" by (simp add: memoGetter_eq)
next
  assume b: "exec fn (body_start (next_comp st) (entered (next_comp st) (new_comp MemoFn fn st)))
       = (Returned v, st4)"
  show "exec (CreateMemo fn k) st
         = exec (k (next_comp st)) ((memo_update (next_comp st) v st4)\<lparr>currentEffect := currentEffect st\<rparr>)"
    by (rule memo_created_eagerly(1)[OF b])
  show "memo_value (comps (memo_update (next_comp st) v st4) (next_comp st)) = v"
    by (rule memo_created_eagerly(2)[OF b])
  show "initialized (comps (memo_update (next_comp st) v st4) (next_comp st))"
    by (rule memo_created_eagerly(3)[OF b])
next
  assume "kind (comps st m) = MemoFn"
  then show "call_comp m st = memo_fn (exec (comp_fn (comps st m))) m (entered m st)"
    by (rule call_comp_memo)
qed

theorem memo_semantics_witness:
  "out memo_state = [VStr ''compute'', VNum 10]
 \<and> dependencies (comps memo_state 0) = [SignalSubs 0, SignalSubs 1]
 \<and> inv_count 0 memo_state = 1
 \<and> inv_count 0 (run_script (writes [(0, VBool False)]) memo_state) = 1
 \<and> inv_count 0 memo_same = 2
 \<and> inv_count 1 memo_same = 1
 \<and> out memo_same = [VStr ''compute'', VNum 10, VStr ''compute'']
 \<and> microtasks memo_same = 0
 \<and> linked memo_same
 \<and> dependencies (comps memo_same 0) = [SignalSubs 0, SignalSubs 2]
 \<and> 0 \<notin> set (subscribers (signals (body_start 0 memo_call) 1))
 \<and> fst (memo_fn (exec choice_body) 0 memo_call) = Returned VUndef
 \<and> effectQueue (run_script (writes [(1, VNum 11)]) memo_same) = []
 \<and> inv_count 0 (run_microtask (run_script (writes [(1, VNum 11)]) memo_same)) = 2
 \<and> SignalSubs 2 \<in> set (dependencies (comps memo_same 0))
 \<and> effectQueue memo_changed = [1]
 \<and> microtasks memo_changed = 1
 \<and> memo_value (comps memo_changed 0) = VNum 21
 \<and> out memo_settled = [VStr ''compute'', VNum 10, VStr ''compute'', VStr ''compute'', VNum 21]
 \<and> 1 \<in> set (memoSubscribers (comps memo_state 0))
 \<and> memo_update 0 (VNum 10) memo_state = memo_state
 \<and> memo_value (comps (memo_update 0 (VNum 21) memo_state) 0) = VNum 21
 \<and> fst (memoGetter 0 memo_state) = VNum 10
 \<and> snd (memoGetter 0 memo_state) = memo_state
 \<and> MemoSubs 0 \<in> set (dependencies (comps (snd (memoGetter 0 (memo_state\<lparr>currentEffect := Some 1\<rparr>))) 1))
 \<and> memo_value (comps (snd (exec (CreateMemo choice_body (\<lambda>m. Return VUndef)) three_signals)) 0) = VNum 10
 \<and> out (snd (exec (CreateMemo choice_body (\<lambda>m. Return VUndef)) three_signals)) = [VStr ''compute'']
 \<and> fst (call_comp 0 (armed 0 (run_script (writes [(0, VBool False)]) memo_state))) = Returned VUndef"
proof -
  note defs = memo_call_def memo_settled_def memo_changed_def memo_same_def memo_state_def memo_demo_def
    three_signals_def choice_body_def writes_def engine_defs inv_count_def
  let ?w = "run_script (writes [(0, VBool False)]) memo_state"
  let ?x = "run_script (writes [(1, VNum 11)]) memo_same"
  let ?a = "memo_state\<lparr>currentEffect := Some 1\<rparr>"
  let ?st4 = "snd (exec choice_body (body_start 0 memo_call))"
  have rw: "reachable ?w"
    unfolding memo_state_def by (intro reachable_script reachable_init)
  have rs: "reachable memo_same"
    unfolding memo_same_def by (rule reachable_microtask[OF rw])
  have v: "out memo_state = [VStr ''compute'', VNum 10]"
    "dependencies (comps memo_state 0) = [SignalSubs 0, SignalSubs 1]"
    "inv_count 0 memo_state = 1"
    "inv_count 0 memo_same = 2"
    "inv_count 1 ?w = 1"
    "out memo_same = [VStr ''compute'', VNum 10, VStr ''compute'']"
    "microtasks memo_same = 0"
    "dependencies (comps memo_same 0) = [SignalSubs 0, SignalSubs 2]"
    "effectQueue ?x = []"
    "inv_count 0 ?x = 2"
    "effectQueue memo_changed = [1]"
    "microtasks memo_changed = 1"
    "memo_value (comps memo_changed 0) = VNum 21"
    "out memo_settled = [VStr ''compute'', VNum 10, VStr ''compute'', VStr ''compute'', VNum 21]"
    by (simp_all add: defs)
  have h: "(0::nat) < next_comp memo_state"
    "(1::nat) < next_comp ?w" "1 \<notin> set (effectQueue ?w)"
    "(0::nat) < next_comp ?x" "0 \<notin> set (effectQueue ?x)"
    "0 \<in> set (effectQueue (snd (signal_call 2 (Some (VNum 21)) memo_same)))"
    "0 \<notin> set (effectQueue memo_same)"
    "1 \<in> set (effectQueue (memo_update 0 (VNum 21) memo_state))"
    "1 \<notin> set (effectQueue memo_state)"
    "initialized (comps memo_state 0)" "strict_eq (VNum 10) (memo_value (comps memo_state 0))"
    "\<not> (initialized (comps memo_state 0) \<and> strict_eq (VNum 21) (memo_value (comps memo_state 0)))"
    "currentEffect memo_state = None" "currentEffect ?a = Some 1"
    "memo_value (comps memo_state 0) = VNum 10"
    by (simp_all add: defs)
  have k: "(0::nat) < next_comp memo_call" "kind (comps memo_call 0) = MemoFn"
    "call_each (cleanups (comps memo_call 0)) memo_call = (Returned VUndef, memo_call)"
    "fst (exec choice_body (body_start 0 memo_call)) = Returned (VNum 10)"
    by (simp_all add: defs)
  have k4: "exec choice_body (body_start 0 memo_call) = (Returned (VNum 10), ?st4)"
    by (rule prod_eqI) (simp_all only: fst_conv snd_conv k(4))
  note T = memo_semantics
  have a: "inv_count 0 ?w = inv_count 0 memo_state"
    by (rule T[where m=0 and st=memo_state and p="writes [(0, VBool False)]",
          THEN conjunct2, THEN conjunct1, THEN mp]) (rule h(1))
  have b: "inv_count 1 (run_microtask ?w) = inv_count 1 ?w"
    by (rule T[where m=1 and st="?w",
          THEN conjunct2, THEN conjunct2, THEN conjunct1, THEN mp]) (intro conjI h(2,3))
  have b2: "inv_count 0 (run_microtask ?x) = inv_count 0 ?x"
    by (rule T[where m=0 and st="?x",
          THEN conjunct2, THEN conjunct2, THEN conjunct1, THEN mp]) (intro conjI h(4,5))
  have lw: "linked ?w"
    by (rule T[where st="?w", THEN conjunct2, THEN conjunct2, THEN conjunct2, THEN conjunct1, THEN mp])
       (rule rw)
  have ls: "linked memo_same"
    by (rule T[where st=memo_same, THEN conjunct2, THEN conjunct2, THEN conjunct2, THEN conjunct1, THEN mp])
       (rule rs)
  have lm: "linked memo_state"
    by (rule T[where st=memo_state, THEN conjunct2, THEN conjunct2, THEN conjunct2, THEN conjunct1, THEN mp])
       (simp add: memo_state_def reachable_script reachable_init)
  have lc: "linked memo_call"
    unfolding memo_call_def using lw by (simp add: linked_armed)
  have d: "SignalSubs 2 \<in> set (dependencies (comps memo_same 0))"
    by (rule T[where m=0 and st=memo_same and s=2 and a="Some (VNum 21)",
          THEN conjunct2, THEN conjunct2, THEN conjunct2, THEN conjunct2, THEN conjunct2, THEN conjunct1,
          THEN mp, THEN conjunct2, THEN conjunct1])
       (intro conjI ls h(6,7))
  have e: "1 \<in> set (memoSubscribers (comps memo_state 0))"
    by (rule T[where c=1 and m=0 and st=memo_state and v="VNum 21",
          THEN conjunct2, THEN conjunct2, THEN conjunct2, THEN conjunct2, THEN conjunct2, THEN conjunct2,
          THEN conjunct1, THEN mp, THEN conjunct1])
       (intro conjI lm h(8,9))
  have f: "\<forall>d. 0 \<notin> set (subs_of d (body_start 0 memo_call))"
    by (rule T[where m=0 and st=memo_call and u=VUndef and ?st1.0=memo_call and p=choice_body
          and r="Returned (VNum 10)" and ?st4.0="?st4",
          THEN conjunct2, THEN conjunct2, THEN conjunct2, THEN conjunct2, THEN conjunct2, THEN conjunct2,
          THEN conjunct2, THEN conjunct1, THEN mp, THEN conjunct2, THEN conjunct1])
       (intro conjI lc k(1,2,3) k4)
  have f': "0 \<notin> set (subscribers (signals (body_start 0 memo_call) 1))"
    using f[THEN spec, of "SignalSubs 1"] by (simp add: subs_of_def)
  have g: "memo_fn (exec choice_body) 0 memo_call
      = (Returned VUndef, (memo_update 0 (VNum 10) ?st4)\<lparr>currentEffect := currentEffect memo_call\<rparr>)"
    by (rule T[where m=0 and st=memo_call and u=VUndef and ?st1.0=memo_call and p=choice_body
          and v="VNum 10" and ?st4.0="?st4",
          THEN conjunct2, THEN conjunct2, THEN conjunct2, THEN conjunct2, THEN conjunct2, THEN conjunct2,
          THEN conjunct2, THEN conjunct2, THEN conjunct1, THEN mp])
       (intro conjI k(3) k4)
  have g': "fst (memo_fn (exec choice_body) 0 memo_call) = Returned VUndef"
    unfolding g by (simp only: fst_conv)
  have i: "memo_update 0 (VNum 10) memo_state = memo_state"
    by (rule T[where m=0 and st=memo_state and v="VNum 10", THEN conjunct2, THEN conjunct2, THEN conjunct2,
          THEN conjunct2, THEN conjunct2, THEN conjunct2, THEN conjunct2, THEN conjunct2, THEN conjunct2,
          THEN conjunct1, THEN mp])
       (intro conjI h(10,11))
  have j: "memo_value (comps (memo_update 0 (VNum 21) memo_state) 0) = VNum 21"
    by (rule T[where m=0 and st=memo_state and v="VNum 21", THEN conjunct2, THEN conjunct2, THEN conjunct2,
          THEN conjunct2, THEN conjunct2, THEN conjunct2, THEN conjunct2, THEN conjunct2, THEN conjunct2,
          THEN conjunct2, THEN conjunct1, THEN mp, THEN conjunct1])
       (rule h(12))
  note G = T[where m=0 and st=memo_state, THEN conjunct2, THEN conjunct2, THEN conjunct2, THEN conjunct2,
          THEN conjunct2, THEN conjunct2, THEN conjunct2, THEN conjunct2, THEN conjunct2, THEN conjunct2,
          THEN conjunct2, THEN conjunct2, THEN conjunct2]
  note G' = T[where m=0 and st="?a" and c=1, THEN conjunct2, THEN conjunct2, THEN conjunct2, THEN conjunct2,
          THEN conjunct2, THEN conjunct2, THEN conjunct2, THEN conjunct2, THEN conjunct2, THEN conjunct2,
          THEN conjunct2, THEN conjunct2, THEN conjunct2]
  have l: "memoGetter 0 memo_state = (memo_value (comps memo_state 0), track (MemoSubs 0) memo_state)"
    by (rule G[THEN conjunct1])
  have l': "fst (memoGetter 0 memo_state) = VNum 10"
    unfolding l by (simp only: fst_conv h(15))
  have n: "snd (memoGetter 0 memo_state) = memo_state"
    by (rule G[THEN conjunct2, THEN conjunct2, THEN conjunct2, THEN conjunct1, THEN mp]) (rule h(13))
  let ?b0 = "body_start (next_comp three_signals)
               (entered (next_comp three_signals) (new_comp MemoFn choice_body three_signals))"
  let ?s4 = "snd (exec choice_body ?b0)"
  have t: "next_comp three_signals = 0" "fst (exec choice_body ?b0) = Returned (VNum 10)"
    "out ?s4 = [VStr ''compute'']"
    by (simp_all add: defs body_start_def)
  have t4: "exec choice_body ?b0 = (Returned (VNum 10), ?s4)"
    by (rule prod_eqI) (simp_all only: fst_conv snd_conv t(2))
  note E = T[where st=three_signals and fn=choice_body and v="VNum 10" and ?st4.0="?s4"
          and k="\<lambda>m. Return VUndef",
          THEN conjunct2, THEN conjunct2, THEN conjunct2, THEN conjunct2,
          THEN conjunct2, THEN conjunct2, THEN conjunct2, THEN conjunct2, THEN conjunct2, THEN conjunct2,
          THEN conjunct2, THEN conjunct2, THEN conjunct2, THEN conjunct2, THEN conjunct2, THEN conjunct2,
          THEN conjunct2, THEN conjunct1, THEN mp, OF t4]
  have e1: "memo_value (comps (snd (exec (CreateMemo choice_body (\<lambda>m. Return VUndef)) three_signals)) 0)
               = VNum 10"
    using E[THEN conjunct2, THEN conjunct1] unfolding E[THEN conjunct1] by (simp add: t(1))
  have e2: "out (snd (exec (CreateMemo choice_body (\<lambda>m. Return VUndef)) three_signals)) = [VStr ''compute'']"
    unfolding E[THEN conjunct1] using t(3) by (simp add: memo_update_def)
  let ?q = "armed 0 (run_script (writes [(0, VBool False)]) memo_state)"
  have q: "kind (comps ?q 0) = MemoFn"
    by (simp add: defs)
  have cc: "call_comp 0 ?q = memo_fn (exec (comp_fn (comps ?q 0))) 0 (entered 0 ?q)"
    by (rule T[where m=0 and st="?q",
          THEN conjunct2, THEN conjunct2, THEN conjunct2, THEN conjunct2,
          THEN conjunct2, THEN conjunct2, THEN conjunct2, THEN conjunct2, THEN conjunct2, THEN conjunct2,
          THEN conjunct2, THEN conjunct2, THEN conjunct2, THEN conjunct2, THEN conjunct2, THEN conjunct2,
          THEN conjunct2, THEN conjunct2, THEN mp])
       (rule q)
  have cc': "fst (call_comp 0 ?q) = Returned VUndef"
    unfolding cc by (simp add: defs)
  have o: "MemoSubs 0 \<in> set (dependencies (comps (snd (memoGetter 0 ?a)) 1))"
    by (rule G'[THEN conjunct2, THEN conjunct2, THEN conjunct1, THEN mp, THEN conjunct2]) (rule h(14))
  have a': "inv_count 0 ?w = 1" using a v(3) by simp
  have b': "inv_count 1 memo_same = 1" using b v(5) by (simp add: memo_same_def)
  have b2': "inv_count 0 (run_microtask ?x) = 2" using b2 v(10) by simp
  show ?thesis
    by (intro conjI v(1) v(2) v(3) a' v(4) b' v(6) v(7) ls v(8) f' g' v(9) b2' d v(11) v(12) v(13) v(14)
          e i j l' n o e1 e2 cc')
qed

subsection \<open>Self-triggering effects\<close>

lemma is_cycle_simps [simp]:
  "is_cycle (CycleDetected c)"
  "\<not> is_cycle (ExecutionFailed x)"
  "\<not> is_cycle CleanupOutside"
  "\<not> is_cycle (RootFailed x)"
  "\<not> is_cycle (RootCleanupFailed x)"
  by (simp_all add: is_cycle_def)

lemma cycles_console: "console st' = console st \<Longrightarrow> cycles st' = cycles st"
  by (simp add: cycles_def)

lemma cycles_fields [simp]:
  "cycles (st\<lparr>out := x\<rparr>) = cycles st"
  "cycles (st\<lparr>currentEffect := y\<rparr>) = cycles st"
  "cycles (st\<lparr>effectQueue := q\<rparr>) = cycles st"
  "cycles (map_comp c f st) = cycles st"
  "cycles (entered c st) = cycles st"
  "cycles (new_signal v st) = cycles st"
  "cycles (new_comp k fn st) = cycles st"
  "cycles (track r st) = cycles st"
  "cycles (fold scheduleUpdate xs st) = cycles st"
  by (simp_all add: cycles_def map_comp_def new_signal_def new_comp_def)

lemma cycles_log [simp]:
  "cycles (st\<lparr>console := console st @ [d]\<rparr>) = (if is_cycle d then cycles st @ [d] else cycles st)"
  by (simp add: cycles_def)

lemma cycles_signal_call [simp]: "cycles (snd (signal_call s a st)) = cycles st"
  by (rule cycles_console) (simp add: signal_call_def Let_def split: option.splits)

lemma cycles_onCleanup [simp]: "cycles (onCleanup f st) = cycles st"
  by (simp add: onCleanup_def split: option.splits)

lemma cycles_run_cleanup [simp]: "cycles (snd (run_cleanup c st)) = cycles st"
  by (induction c arbitrary: st) (simp_all add: split_beta)

lemma cycles_call_each [simp]: "cycles (snd (call_each cs st)) = cycles st"
proof (induction cs arbitrary: st)
  case Nil
  then show ?case by simp
next
  case (Cons c cs)
  show ?case
  proof (cases "run_cleanup c st")
    case (Pair r st')
    have "cycles st' = cycles st" using cycles_run_cleanup[of c st] Pair by simp
    then show ?thesis using Pair Cons[of st'] by (cases r) simp_all
  qed
qed

lemma cycles_call_each_guarded [simp]: "cycles (call_each_guarded cs st) = cycles st"
proof (induction cs arbitrary: st)
  case Nil
  then show ?case by simp
next
  case (Cons c cs)
  show ?case
  proof (cases "run_cleanup c st")
    case (Pair r st')
    have "cycles st' = cycles st" using cycles_run_cleanup[of c st] Pair by simp
    then show ?thesis using Pair Cons by (cases r) simp_all
  qed
qed

lemma console_unsubscribe_loop:
  "console (fold (\<lambda>depSet. map_subs depSet (set_delete e)) ds st) = console st"
  by (induction ds arbitrary: st) (simp_all add: map_subs_def split: subs_ref.splits)

lemma cycles_unsubscribe [simp]: "cycles (unsubscribe e st) = cycles st"
  by (simp add: unsubscribe_def cycles_def map_comp_def console_unsubscribe_loop)

lemma cycles_memo_update [simp]: "cycles (memo_update m v st) = cycles st"
  by (simp add: memo_update_def)

lemma cycles_effect_dispose [simp]: "cycles (snd (effect_dispose e st)) = cycles st"
proof -
  have "cycles (snd (call_each cs (map_comp e f st))) = cycles st" for cs f
    using cycles_call_each[of cs "map_comp e f st"] by simp
  then show ?thesis
    by (auto simp add: effect_dispose_def Let_def split_beta split: outcome.splits)
qed

lemma cycles_root_dispose [simp]: "cycles (root_dispose r st) = cycles st"
  by (simp add: root_dispose_def Let_def)

lemma cycles_dispose [simp]: "cycles (snd (dispose c st)) = cycles st"
  by (cases "kind (comps st c)") (simp_all add: dispose_def)

lemma cycles_memoGetter [simp]: "cycles (snd (memoGetter m st)) = cycles st"
  by (simp add: memoGetter_def Let_def)

lemma cycles_effect_fn:
  assumes "\<And>s. cycles (snd (f s)) = cycles s"
  shows "cycles (snd (effect_fn f e st)) = cycles st"
proof -
  obtain r st1 where c: "call_each (cleanups (comps st e)) st = (r, st1)" by force
  have "cycles st1 = cycles st"
    using cycles_call_each[of "cleanups (comps st e)" st] c by simp
  then show ?thesis using c assms
    by (cases r) (simp_all add: effect_fn_def Let_def split_beta)
qed

lemma cycles_memo_fn:
  assumes "\<And>s. cycles (snd (f s)) = cycles s"
  shows "cycles (snd (memo_fn f m st)) = cycles st"
proof -
  obtain r st1 where c: "call_each (cleanups (comps st m)) st = (r, st1)" by force
  have "cycles st1 = cycles st"
    using cycles_call_each[of "cleanups (comps st m)" st] c by simp
  then show ?thesis using c assms
    by (cases r) (simp_all add: memo_fn_def Let_def split_beta split: outcome.splits)
qed

text \<open>No caller code logs a self-cycle detection.\<close>

lemma cycles_exec [simp]: "cycles (snd (exec p st)) = cycles st"
proof (induction p arbitrary: st)
  case (CreateEffect fn k)
  obtain r st2 where c: "effect_fn (exec fn) (next_comp st) (entered (next_comp st) (new_comp EffectFn fn st)) = (r, st2)"
    by force
  have "cycles st2 = cycles st"
    using cycles_effect_fn[of "exec fn" "next_comp st" "entered (next_comp st) (new_comp EffectFn fn st)"]
      c CreateEffect.IH(1) by simp
  then show ?case using c CreateEffect.IH(2) by (cases r) simp_all
next
  case (CreateMemo fn k)
  obtain r st2 where c: "memo_fn (exec fn) (next_comp st) (entered (next_comp st) (new_comp MemoFn fn st)) = (r, st2)"
    by force
  have "cycles st2 = cycles st"
    using cycles_memo_fn[of "exec fn" "next_comp st" "entered (next_comp st) (new_comp MemoFn fn st)"]
      c CreateMemo.IH(1) by simp
  then show ?case using c CreateMemo.IH(2) by (cases r) simp_all
next
  case (CreateRoot fn k)
  then show ?case by (simp add: Let_def split_beta split: outcome.splits)
next
  case (Dispose c p)
  obtain r st' where d: "dispose c st = (r, st')" by force
  have "cycles st' = cycles st" using cycles_dispose[of c st] d by simp
  then show ?case using d Dispose.IH by (cases r) simp_all
qed (simp_all add: split_beta)

lemma cycles_call_comp [simp]: "cycles (snd (call_comp c st)) = cycles st"
  by (cases "kind (comps st c)") (simp_all add: call_comp_def cycles_effect_fn cycles_memo_fn)

text \<open>A round of the flush loop logs a detection only for a computation whose flag is set.\<close>

lemma cycles_flush_one: "\<not> running (comps st c) \<Longrightarrow> cycles (snd (flush_one c st)) = cycles st"
proof -
  have "cycles (snd (call_comp c (map_comp c f (st\<lparr>effectQueue := q\<rparr>)))) = cycles st" for f q
    using cycles_call_comp[of c "map_comp c f (st\<lparr>effectQueue := q\<rparr>)"] by simp
  then show "\<not> running (comps st c) \<Longrightarrow> cycles (snd (flush_one c st)) = cycles st"
    by (simp add: flush_one_def Let_def split_beta split: outcome.splits)
qed

lemma cycles_flush_loop: "all_idle st \<Longrightarrow> cycles (snd (flush_loop q st)) = cycles st"
proof (induction q arbitrary: st)
  case Nil
  then show ?case by simp
next
  case (Cons c q)
  obtain r st1 where f: "flush_one c st = (r, st1)" by force
  have a: "cycles st1 = cycles st"
    using cycles_flush_one[of st c] Cons.prems f by (simp add: all_idle_def)
  have "all_idle st1" using all_idle_flush_one[OF Cons.prems, of c] f by simp
  from Cons.IH[OF this] show ?case using a f by (cases r) simp_all
qed

lemma cycles_run_microtask: "all_idle st \<Longrightarrow> cycles (run_microtask st) = cycles st"
proof -
  assume a: "all_idle st"
  have "all_idle (st\<lparr>microtasks := n, isBatching := False\<rparr>)" for n
    using a by (simp add: all_idle_def)
  from cycles_flush_loop[OF this] show ?thesis
    by (simp add: run_microtask_eq flush_def flush_callback_def Let_def cycles_def)
qed

lemma reachable_no_cycle: "reachable st \<Longrightarrow> cycles st = []"
proof (induction rule: reachable.induct)
  case reachable_init
  then show ?case by (simp add: cycles_def init_state_def)
next
  case (reachable_script st p)
  then show ?case by (simp add: run_script_def)
next
  case (reachable_microtask st)
  then show ?case using cycles_run_microtask[of st] reachable_sched_ok[of st] by simp
qed

lemma spinning_start: "spinning (Suc 0) self_state"
  by (simp add: spinning_def self_state_def self_writer_def self_writer_body_def js_not_def
      engine_defs inv_count_def)

lemma spinning_step:
  assumes "spinning n st"
  shows "spinning (Suc n) (run_microtask st)"
  using assms
  by (simp add: spinning_def self_writer_body_def js_not_def engine_defs inv_count_def)

lemma spinning_forever: "spinning (Suc n) ((run_microtask ^^ n) self_state)"
  by (induction n) (simp_all add: spinning_start spinning_step)

text \<open>
  C2. The flush loop does skip a computation whose \<open>running\<close> flag is set, logging a
  self-cycle detection and leaving it out of the queue. But the flag is set only around
  the call \<open>eff()\<close> inside the flush callback and cleared in its \<open>finally\<close>, and flush
  callbacks never nest: in every state between two turns no flag is set and no detection
  has ever been logged. An effect that writes a signal it reads, with a value that keeps
  changing, is therefore never skipped: each flush runs it again, the run enqueues it
  and schedules the next flush, and the chain of microtasks does not end. After any
  number \<open>n\<close> of flushes of \<open>createEffect(() => { s(!s()); })\<close> one more flush is pending,
  the effect is queued, it has run \<open>n + 1\<close> times, and nothing was logged.
\<close>

theorem self_cycle_undetected:
  "(\<not> disposed (comps st eff) \<and> running (comps st eff) \<longrightarrow>
      flush_one eff st = (Returned VUndef, st\<lparr>effectQueue := set_delete eff (effectQueue st),
                                               console := console st @ [CycleDetected eff]\<rparr>))
 \<and> (reachable st \<longrightarrow> \<not> running (comps st c) \<and> CycleDetected c \<notin> set (console st))
 \<and> microtasks ((run_microtask ^^ n) self_state) = 1
 \<and> effectQueue ((run_microtask ^^ n) self_state) = [0]
 \<and> inv_count 0 ((run_microtask ^^ n) self_state) = Suc n
 \<and> sig_value (signals ((run_microtask ^^ n) self_state) 0) = VBool (even n)
 \<and> console ((run_microtask ^^ n) self_state) = []"
proof (intro conjI impI)
  assume "\<not> disposed (comps st eff) \<and> running (comps st eff)"
  then show "flush_one eff st = (Returned VUndef, st\<lparr>effectQueue := set_delete eff (effectQueue st),
                                               console := console st @ [CycleDetected eff]\<rparr>)"
    by (simp add: flush_one_running)
next
  assume r: "reachable st"
  then show "\<not> running (comps st c)"
    using reachable_sched_ok[of st] by (simp add: all_idle_def)
  have "filter is_cycle (console st) = []"
    using reachable_no_cycle[OF r] by (simp add: cycles_def)
  then have "\<forall>d\<in>set (console st). \<not> is_cycle d" by (simp add: filter_empty_conv)
  then show "CycleDetected c \<notin> set (console st)" by auto
next
  let ?st = "(run_microtask ^^ n) self_state"
  have s: "spinning (Suc n) ?st" by (rule spinning_forever)
  show "microtasks ?st = 1" "effectQueue ?st = [0]" "inv_count 0 ?st = Suc n"
    "sig_value (signals ?st 0) = VBool (even n)" "console ?st = []"
    using s by (simp_all add: spinning_def)
qed

theorem self_cycle_undetected_witness:
  "console (snd (flush_one 0 (armed 0 self_state))) = [CycleDetected 0]
 \<and> inv_count 0 (snd (flush_one 0 (armed 0 self_state))) = 1
 \<and> \<not> running (comps (run_microtask self_state) 0)
 \<and> CycleDetected 0 \<notin> set (console (run_microtask self_state))
 \<and> microtasks ((run_microtask ^^ 3) self_state) = 1
 \<and> effectQueue ((run_microtask ^^ 3) self_state) = [0]
 \<and> inv_count 0 ((run_microtask ^^ 3) self_state) = 4
 \<and> sig_value (signals ((run_microtask ^^ 3) self_state) 0) = VBool False
 \<and> console ((run_microtask ^^ 3) self_state) = []"
proof -
  note defs = self_state_def self_writer_def self_writer_body_def js_not_def engine_defs inv_count_def
  let ?l = "(armed 0 self_state)\<lparr>effectQueue := set_delete 0 (effectQueue (armed 0 self_state)),
                               console := console (armed 0 self_state) @ [CycleDetected 0]\<rparr>"
  have h: "\<not> disposed (comps (armed 0 self_state) 0)" "running (comps (armed 0 self_state) 0)"
    "console (armed 0 self_state) = []" "inv_count 0 self_state = 1"
    by (simp_all add: defs)
  have a: "flush_one 0 (armed 0 self_state) = (Returned VUndef, ?l)"
    by (rule self_cycle_undetected[where st="armed 0 self_state" and eff=0, THEN conjunct1, THEN mp])
       (intro conjI h(1,2))
  have a0: "snd (flush_one 0 (armed 0 self_state)) = ?l" by (simp only: a snd_conv)
  have a1: "console (snd (flush_one 0 (armed 0 self_state))) = [CycleDetected 0]"
    unfolding a0 using h(3) by simp
  have a2: "inv_count 0 (snd (flush_one 0 (armed 0 self_state))) = 1"
    unfolding a0 using h(4) by (simp add: inv_count_def armed_def map_comp_def)
  have r: "reachable (run_microtask self_state)"
    unfolding self_state_def by (intro reachable_microtask reachable_script reachable_init)
  have b: "\<not> running (comps (run_microtask self_state) 0)
      \<and> CycleDetected 0 \<notin> set (console (run_microtask self_state))"
    by (rule self_cycle_undetected[where st="run_microtask self_state" and c=0,
          THEN conjunct2, THEN conjunct1, THEN mp]) (rule r)
  note T = self_cycle_undetected[where n=3, THEN conjunct2, THEN conjunct2]
  have c: "microtasks ((run_microtask ^^ 3) self_state) = 1"
    "effectQueue ((run_microtask ^^ 3) self_state) = [0]"
    "inv_count 0 ((run_microtask ^^ 3) self_state) = 4"
    "sig_value (signals ((run_microtask ^^ 3) self_state) 0) = VBool False"
    "console ((run_microtask ^^ 3) self_state) = []"
    using T by simp_all
  show ?thesis by (intro conjI a1 a2 b[THEN conjunct1] b[THEN conjunct2] c)
qed

end
